theory Spec2Isabelle
  imports Complex_Main "HOL-Library.Product_Lexorder" "HOL-Library.Sublist"
begin

section \<open>JavaScript values and the built-in coercions the program calls\<close>

text \<open>
  The bookmark tree travels as JSON from the editor (\<open>App.jsx\<close>) to the server
  (\<open>/api/process\<close>). The program coerces a node's \<open>page\<close> field twice, with two different
  built-ins: \<open>Number(page) || 0\<close> when it sorts and \<open>parseInt(page, 10) || 1\<close> when it prints.
  Both built-ins are modelled after ECMAScript, on these conventions:

  \<^item> a string is a \<open>char list\<close>, each \<open>char\<close> a code unit below 256 (Latin-1 text); white
    space is the white space and the line terminators of ECMAScript among these: the six
    ASCII ones and the no-break space \<open>U+00A0\<close> (the others lie outside this string type);
  \<^item> a number is its exact mathematical value (\<open>jsnum\<close>: a rational, an infinity or NaN);
    IEEE rounding is not modelled, so the model is the program on the numbers a double holds
    exactly, in particular on every integer below \<open>2^53\<close> in magnitude, and integers are printed
    in plain decimal, as JavaScript does below \<open>10^21\<close>;
  \<open>+0\<close> and \<open>-0\<close> are one value (both are falsy and compare equal);
  \<^item> a \<open>page\<close> field is absent, \<open>null\<close>, a boolean, an integer or a string (\<open>jsval\<close>).
\<close>

datatype jsnum = NaN | Fin rat | PosInf | NegInf

datatype jsval = JUndefined | JNull | JBool bool | JInt int | JString string

definition isWhiteSpace :: "char \<Rightarrow> bool" where
  "isWhiteSpace c =
     (c \<in> set [CHR 0x09, CHR 0x0A, CHR 0x0B, CHR 0x0C, CHR 0x0D, CHR 0x20, CHR 0xA0])"

definition trimStart :: "string \<Rightarrow> string" where
  "trimStart s = dropWhile isWhiteSpace s"

definition trimEnd :: "string \<Rightarrow> string" where
  "trimEnd s = rev (dropWhile isWhiteSpace (rev s))"

text \<open>\<open>String.prototype.trim\<close>.\<close>

definition trim :: "string \<Rightarrow> string" where
  "trim s = trimEnd (trimStart s)"

definition isDigit :: "char \<Rightarrow> bool" where
  "isDigit c = (c \<in> set ''0123456789'')"

definition isHexDigit :: "char \<Rightarrow> bool" where
  "isHexDigit c = (c \<in> set ''0123456789abcdefABCDEF'')"

definition isOctalDigit :: "char \<Rightarrow> bool" where
  "isOctalDigit c = (c \<in> set ''01234567'')"

definition isBinaryDigit :: "char \<Rightarrow> bool" where
  "isBinaryDigit c = (c \<in> set ''01'')"

text \<open>The value of a digit character in any radix up to 16.\<close>

definition digitVal :: "char \<Rightarrow> nat" where
  "digitVal c =
     (if isDigit c then of_char c - 48
      else if c \<in> set ''abcdef'' then of_char c - 87
      else of_char c - 55)"

definition digitsVal :: "nat \<Rightarrow> string \<Rightarrow> nat" where
  "digitsVal radix ds = foldl (\<lambda>a c. a * radix + digitVal c) 0 ds"

text \<open>
  \<open>parseInt(string, 10)\<close>: leading white space is skipped, one sign is read, then the
  longest run of decimal digits; no digit gives NaN (here \<open>None\<close>), and whatever follows the
  digits is ignored. The result is NaN or an integer, hence an \<open>int option\<close>. The integer
  is the exact value of the digits, which is what \<open>parseInt\<close> returns below \<open>2^53\<close>; from
  there on JavaScript rounds to a double, and a property that states the value read from a
  digit run of any length carries that bound.
\<close>

definition parseIntString :: "string \<Rightarrow> int option" where
  "parseIntString s =
     (let t = trimStart s;
          neg = (t \<noteq> [] \<and> hd t = CHR ''-'');
          u = (if t \<noteq> [] \<and> (hd t = CHR ''+'' \<or> hd t = CHR ''-'') then tl t else t);
          z = takeWhile isDigit u
      in if z = [] then None
         else Some ((if neg then - 1 else 1) * int (digitsVal 10 z)))"

text \<open>\<open>Number::toString\<close> on an integer, in decimal.\<close>

definition digitChar :: "nat \<Rightarrow> char" where
  "digitChar d = ''0123456789'' ! d"

fun natToString :: "nat \<Rightarrow> string" where
  "natToString n = (if n < 10 then [digitChar n] else natToString (n div 10) @ [digitChar (n mod 10)])"

declare natToString.simps [simp del]

definition intToString :: "int \<Rightarrow> string" where
  "intToString i = (if i < 0 then CHR ''-'' # natToString (nat (- i)) else natToString (nat i))"

text \<open>\<open>ToString\<close>, which \<open>parseInt\<close> applies to its argument first.\<close>

fun ToString :: "jsval \<Rightarrow> string" where
  "ToString JUndefined = ''undefined''"
| "ToString JNull = ''null''"
| "ToString (JBool b) = (if b then ''true'' else ''false'')"
| "ToString (JInt i) = intToString i"
| "ToString (JString s) = s"

definition parseInt :: "jsval \<Rightarrow> int option" where
  "parseInt v = parseIntString (ToString v)"

text \<open>
  \<open>StringToNumber\<close>, which \<open>Number\<close> applies to a string: the whole trimmed string must be
  a numeric literal, else NaN; the empty string is \<open>0\<close>.
\<close>

definition pow10 :: "int \<Rightarrow> rat" where
  "pow10 e = (if 0 \<le> e then 10 ^ nat e else 1 / 10 ^ nat (- e))"

text \<open>The exponent part, or nothing, up to the end of the literal.\<close>

definition exponentPart :: "string \<Rightarrow> int option" where
  "exponentPart s =
     (if s = [] then Some 0
      else if hd s = CHR ''e'' \<or> hd s = CHR ''E'' then
        (let r = tl s;
             neg = (r \<noteq> [] \<and> hd r = CHR ''-'');
             ds = (if r \<noteq> [] \<and> (hd r = CHR ''+'' \<or> hd r = CHR ''-'') then tl r else r)
         in if ds \<noteq> [] \<and> list_all isDigit ds
            then Some ((if neg then - 1 else 1) * int (digitsVal 10 ds))
            else None)
      else None)"

definition strUnsignedDecimalLiteral :: "string \<Rightarrow> jsnum" where
  "strUnsignedDecimalLiteral s =
     (if s = ''Infinity'' then PosInf
      else
        (let ip = takeWhile isDigit s;
             r1 = dropWhile isDigit s;
             dot = (r1 \<noteq> [] \<and> hd r1 = CHR ''.'');
             fp = (if dot then takeWhile isDigit (tl r1) else []);
             r2 = (if dot then dropWhile isDigit (tl r1) else r1)
         in if ip = [] \<and> fp = [] then NaN
            else (case exponentPart r2 of
                    None \<Rightarrow> NaN
                  | Some e \<Rightarrow> Fin (of_nat (digitsVal 10 (ip @ fp)) * pow10 (e - int (length fp))))))"

definition jsNegate :: "jsnum \<Rightarrow> jsnum" where
  "jsNegate x = (case x of NaN \<Rightarrow> NaN | Fin r \<Rightarrow> Fin (- r) | PosInf \<Rightarrow> NegInf | NegInf \<Rightarrow> PosInf)"

definition strDecimalLiteral :: "string \<Rightarrow> jsnum" where
  "strDecimalLiteral s =
     (if s \<noteq> [] \<and> hd s = CHR ''+'' then strUnsignedDecimalLiteral (tl s)
      else if s \<noteq> [] \<and> hd s = CHR ''-'' then jsNegate (strUnsignedDecimalLiteral (tl s))
      else strUnsignedDecimalLiteral s)"

definition nonDecimalIntegerLiteral :: "string \<Rightarrow> jsnum option" where
  "nonDecimalIntegerLiteral s =
     (let p = take 2 s; ds = drop 2 s
      in if p = ''0x'' \<or> p = ''0X'' then
           Some (if ds \<noteq> [] \<and> list_all isHexDigit ds then Fin (of_nat (digitsVal 16 ds)) else NaN)
         else if p = ''0o'' \<or> p = ''0O'' then
           Some (if ds \<noteq> [] \<and> list_all isOctalDigit ds then Fin (of_nat (digitsVal 8 ds)) else NaN)
         else if p = ''0b'' \<or> p = ''0B'' then
           Some (if ds \<noteq> [] \<and> list_all isBinaryDigit ds then Fin (of_nat (digitsVal 2 ds)) else NaN)
         else None)"

definition StringToNumber :: "string \<Rightarrow> jsnum" where
  "StringToNumber s =
     (let t = trim s
      in if t = [] then Fin 0
         else (case nonDecimalIntegerLiteral t of
                 Some v \<Rightarrow> v
               | None \<Rightarrow> strDecimalLiteral t))"

text \<open>\<open>Number(value)\<close>.\<close>

fun Number :: "jsval \<Rightarrow> jsnum" where
  "Number JUndefined = NaN"
| "Number JNull = Fin 0"
| "Number (JBool b) = Fin (if b then 1 else 0)"
| "Number (JInt i) = Fin (of_int i)"
| "Number (JString s) = StringToNumber s"

text \<open>Truthiness of a number (\<open>NaN\<close> and zero are falsy), and \<open>x || d\<close> on numbers.\<close>

definition truthy :: "jsnum \<Rightarrow> bool" where
  "truthy x = (x \<noteq> NaN \<and> x \<noteq> Fin 0)"

definition orElse :: "jsnum \<Rightarrow> jsnum \<Rightarrow> jsnum" where
  "orElse x d = (if truthy x then x else d)"

text \<open>
  Subtraction of numbers. On finite doubles the sign of \<open>a - b\<close> is the sign of the exact
  difference; an infinity minus itself is NaN.
\<close>

fun jsMinus :: "jsnum \<Rightarrow> jsnum \<Rightarrow> jsnum" where
  "jsMinus NaN _ = NaN"
| "jsMinus _ NaN = NaN"
| "jsMinus (Fin a) (Fin b) = Fin (a - b)"
| "jsMinus (Fin a) PosInf = NegInf"
| "jsMinus (Fin a) NegInf = PosInf"
| "jsMinus PosInf (Fin b) = PosInf"
| "jsMinus PosInf PosInf = NaN"
| "jsMinus PosInf NegInf = PosInf"
| "jsMinus NegInf (Fin b) = NegInf"
| "jsMinus NegInf PosInf = NegInf"
| "jsMinus NegInf NegInf = NaN"

text \<open>
  \<open>Array.prototype.sort(comparefn)\<close>. ECMAScript requires the sort to be stable and reads
  the comparator's answer by its sign, NaN counting as zero: \<open>b\<close> goes before \<open>a\<close> only when
  \<open>comparefn(a, b) > 0\<close>. With a consistent comparator the result is then determined; the
  model computes it by insertion, each element entering in front of the sorted rest of
  the array and moving right only past elements it is strictly greater than.
\<close>

definition positive :: "jsnum \<Rightarrow> bool" where
  "positive v = (case v of Fin r \<Rightarrow> 0 < r | PosInf \<Rightarrow> True | _ \<Rightarrow> False)"

fun sortInsert :: "('a \<Rightarrow> 'a \<Rightarrow> jsnum) \<Rightarrow> 'a \<Rightarrow> 'a list \<Rightarrow> 'a list" where
  "sortInsert comparefn a [] = [a]"
| "sortInsert comparefn a (b # bs) =
     (if positive (comparefn a b) then b # sortInsert comparefn a bs else a # b # bs)"

fun arraySort :: "('a \<Rightarrow> 'a \<Rightarrow> jsnum) \<Rightarrow> 'a list \<Rightarrow> 'a list" where
  "arraySort comparefn [] = []"
| "arraySort comparefn (a # as) = sortInsert comparefn a (arraySort comparefn as)"

text \<open>\<open>Array.prototype.join(separator)\<close> on strings.\<close>

fun join :: "string \<Rightarrow> string list \<Rightarrow> string" where
  "join sep [] = []"
| "join sep [x] = x"
| "join sep (x # y # ys) = x @ sep @ join sep (y # ys)"

section \<open>The outline serializer of the server\<close>

text \<open>
  A bookmark as the server receives it: \<open>page\<close> is any JSON value of the kinds above,
  \<open>title\<close> is text or absent, \<open>children\<close> is the array of sub-bookmarks (an absent
  \<open>children\<close> field and an empty array are treated alike by both functions, which test
  \<open>Array.isArray\<close> and the length, so both are the empty list).
\<close>

datatype node = Node (page: jsval) (title: "string option") (children: "node list")

text \<open>The comparator of \<open>sortBookmarksByPage\<close>:
  \<^verbatim>\<open>(a, b) => (Number(a.page) || 0) - (Number(b.page) || 0)\<close>.\<close>

definition sortKey :: "node \<Rightarrow> jsnum" where
  "sortKey a = orElse (Number (page a)) (Fin 0)"

definition byPage :: "node \<Rightarrow> node \<Rightarrow> jsnum" where
  "byPage a b = jsMinus (sortKey a) (sortKey b)"

lemma set_sortInsert: "set (sortInsert comparefn a bs) = insert a (set bs)"
  by (induction bs) auto

lemma set_arraySort: "set (arraySort comparefn as) = set as"
  by (induction as) (simp_all add: set_sortInsert)

lemma size_member_less: "n \<in> set nodes \<Longrightarrow> size n < size_list size nodes"
  by (induction nodes) auto

text \<open>
  \<^verbatim>\<open>nodes.slice().sort(byPage).map((n) => ({...n, children: ...}))\<close>, the children
  being \<open>sortBookmarksByPage(n.children)\<close>. The arrow function given to \<open>map\<close> is
  \<open>sortChildren\<close>.
\<close>

function sortBookmarksByPage :: "node list \<Rightarrow> node list"
  and sortChildren :: "node \<Rightarrow> node" where
  "sortBookmarksByPage nodes = map sortChildren (arraySort byPage nodes)"
| "sortChildren (Node p t cs) = Node p t (sortBookmarksByPage cs)"
  by pat_completeness auto
termination
  by (relation "measure (\<lambda>x. case x of Inl ns \<Rightarrow> 2 * size_list size ns + 1 | Inr n \<Rightarrow> 2 * size n)")
    (auto simp: set_arraySort dest: size_member_less)

declare sortBookmarksByPage.simps [simp del]

text \<open>
  \<open>buildPrintedOutline(bookmarks, depth = 0, lines = [])\<close> pushes one line per bookmark
  onto the shared array \<open>lines\<close>, descends into a non-empty \<open>children\<close> array with the same
  \<open>lines\<close>, and returns \<open>lines.join('\n')\<close>. \<open>outlineLines\<close> is the \<open>forEach\<close>: the array
  \<open>lines\<close> after it. The value of the inner call is dropped by the source; its effect on
  \<open>lines\<close> is kept.
\<close>

definition emitPage :: "node \<Rightarrow> int" where
  "emitPage b = (case parseInt (page b) of None \<Rightarrow> 1 | Some p \<Rightarrow> if p = 0 then 1 else p)"

text \<open>\<^verbatim>\<open>(b.title || '').replace(/\n/g, ' ')\<close>\<close>

definition emitTitle :: "node \<Rightarrow> string" where
  "emitTitle b =
     map (\<lambda>c. if c = CHR 0x0A then CHR '' '' else c) (case title b of None \<Rightarrow> [] | Some t \<Rightarrow> t)"

definition outlineLine :: "node \<Rightarrow> nat \<Rightarrow> string" where
  "outlineLine b depth =
     intToString (emitPage b) @ ''|'' @ replicate depth CHR ''-'' @ ''|'' @ emitTitle b"

fun outlineLines :: "node list \<Rightarrow> nat \<Rightarrow> string list \<Rightarrow> string list" where
  "outlineLines [] depth lines = lines"
| "outlineLines (Node p t cs # bookmarks) depth lines =
     (let lines1 = lines @ [outlineLine (Node p t cs) depth];
          lines2 = (if cs \<noteq> [] then outlineLines cs (depth + 1) lines1 else lines1)
      in outlineLines bookmarks depth lines2)"

definition buildPrintedOutline :: "node list \<Rightarrow> nat \<Rightarrow> string list \<Rightarrow> string" where
  "buildPrintedOutline bookmarks depth lines = join [CHR 0x0A] (outlineLines bookmarks depth lines)"

text \<open>
  The two lines of \<open>/api/process\<close> that compute the descriptor; \<open>None\<close> is a request
  body whose \<open>bookmarks\<close> is not an array.
  \<^verbatim>\<open>
  const normalized = Array.isArray(bookmarks) ? sortBookmarksByPage(bookmarks) : [];
  const printedOutline = normalized.length > 0 ? buildPrintedOutline(normalized) : '';
  \<close>
\<close>

definition printedOutline :: "node list option \<Rightarrow> string" where
  "printedOutline bookmarks =
     (let normalized = (case bookmarks of Some bs \<Rightarrow> sortBookmarksByPage bs | None \<Rightarrow> [])
      in if length normalized > 0 then buildPrintedOutline normalized 0 [] else [])"

section \<open>The bookmark tree store of the editor\<close>

text \<open>
  A node of the editor's tree (\<open>createNode\<close>): its \<open>id\<close> is a \<open>uuidv4()\<close>, its \<open>page\<close> a
  number, its \<open>children\<close> an array. The fields are primed, the unprimed names being those of
  the server's nodes. A uuid is opaque and only its freshness matters: the library's
  generator is a counter here, each call returning the next value.
\<close>

type_synonym uuid = nat

datatype tnode = TNode (id': uuid) (title': string) (page': int) (children': "tnode list")

datatype toastType = Info | Error

datatype modalMode = AddRoot | AddChild | Edit

text \<open>
  The state of the \<open>App\<close> component that the tree operations read and write. \<open>numPages\<close>,
  \<open>modalParentId\<close> and \<open>editingId\<close> are \<open>null\<close> (\<open>None\<close>) or a value; a toast is its id,
  its message and its type. The timer that dismisses a toast is left out: \<open>toasts\<close> is the
  log of what was shown.
\<close>

record app =
  tree :: "tnode list"
  numPages :: "int option"
  modalOpen :: bool
  modalMode :: modalMode
  modalParentId :: "uuid option"
  editingId :: "uuid option"
  formTitle :: string
  formPage :: string
  toasts :: "(uuid \<times> string \<times> toastType) list"
  nextUuid :: uuid

definition showToast :: "string \<Rightarrow> toastType \<Rightarrow> app \<Rightarrow> app" where
  "showToast message type s =
     s\<lparr>toasts := toasts s @ [(nextUuid s, message, type)], nextUuid := nextUuid s + 1\<rparr>"

text \<open>\<^verbatim>\<open>return { id: uuidv4(), title, page: Number(page), children: [] }\<close>; \<open>page\<close> is
  already a number at both call sites. (The arguments are \<open>title0\<close> and \<open>page0\<close>
  wherever the source's \<open>title\<close> and \<open>page\<close> would be read as the fields of that name.)\<close>

definition createNode :: "string \<Rightarrow> int \<Rightarrow> app \<Rightarrow> tnode \<times> app" where
  "createNode title0 page0 s = (TNode (nextUuid s) title0 page0 [], s\<lparr>nextUuid := nextUuid s + 1\<rparr>)"

definition setChildren :: "tnode \<Rightarrow> tnode list \<Rightarrow> tnode" where
  "setChildren n cs = TNode (id' n) (title' n) (page' n) cs"

lemma size_children'_less: "size_list size (children' n) < size n"
  by (cases n) simp

lemma size_nth_drop_less: "i < length nodes \<Longrightarrow> size_list size (children' (nodes ! i)) < size_list size (drop i nodes)"
  using size_children'_less [of "nodes ! i"] by (simp flip: Cons_nth_drop_Suc)

lemma size_drop_Suc_less: "i < length nodes \<Longrightarrow> size_list size (drop (Suc i) nodes) < size_list size (drop i nodes)"
  by (simp flip: Cons_nth_drop_Suc)

text \<open>
  \<open>findAndOperate(nodes, id, op)\<close>: the loop over \<open>i\<close>, from \<open>i\<close> on. The callback
  \<open>op(nodes, i)\<close> mutates the array it is given; here it returns that array as it leaves it.
  The result is the boolean the source returns and the array \<open>nodes\<close> as the call leaves it:
  where the source descends into \<open>nodes[i].children\<close>, which the inner call may have
  changed in place, the model writes the children array back into node \<open>i\<close>.
\<close>

function findAndOperate_from ::
  "nat \<Rightarrow> tnode list \<Rightarrow> uuid \<Rightarrow> (tnode list \<Rightarrow> nat \<Rightarrow> tnode list) \<Rightarrow> bool \<times> tnode list" where
  "findAndOperate_from i nodes tid operate =
     (if i < length nodes then
        (if id' (nodes ! i) = tid then (True, operate nodes i)
         else if children' (nodes ! i) \<noteq> [] then
           (case findAndOperate_from 0 (children' (nodes ! i)) tid operate of
              (found, cs) \<Rightarrow>
                if found then (True, nodes[i := setChildren (nodes ! i) cs])
                else findAndOperate_from (i + 1) (nodes[i := setChildren (nodes ! i) cs]) tid operate)
         else findAndOperate_from (i + 1) nodes tid operate)
      else (False, nodes))"
  by pat_completeness auto
termination
  by (relation "measure (\<lambda>(i, nodes, tid, operate). size_list size (drop i nodes))")
    (auto simp: size_nth_drop_less size_drop_Suc_less)

declare findAndOperate_from.simps [simp del]

definition findAndOperate ::
  "tnode list \<Rightarrow> uuid \<Rightarrow> (tnode list \<Rightarrow> nat \<Rightarrow> tnode list) \<Rightarrow> bool \<times> tnode list" where
  "findAndOperate nodes tid operate = findAndOperate_from 0 nodes tid operate"

text \<open>The three callbacks the program passes.
  \<^verbatim>\<open>(arr, idx) => { arr[idx].children.push(node); }\<close>
  \<^verbatim>\<open>(arr, i) => { arr[i].title = title; arr[i].page = page; }\<close>
  \<^verbatim>\<open>(arr, i) => arr.splice(i, 1)\<close>\<close>

definition pushChild :: "tnode \<Rightarrow> tnode list \<Rightarrow> nat \<Rightarrow> tnode list" where
  "pushChild node arr idx = arr[idx := setChildren (arr ! idx) (children' (arr ! idx) @ [node])]"

definition setTitlePage :: "string \<Rightarrow> int \<Rightarrow> tnode list \<Rightarrow> nat \<Rightarrow> tnode list" where
  "setTitlePage title0 page0 arr i = arr[i := TNode (id' (arr ! i)) title0 page0 (children' (arr ! i))]"

definition splice1 :: "tnode list \<Rightarrow> nat \<Rightarrow> tnode list" where
  "splice1 arr i = take i arr @ drop (i + 1) arr"

text \<open>\<open>Array.prototype.findIndex\<close>; \<open>None\<close> is \<open>-1\<close>.\<close>

fun findIndex :: "('a \<Rightarrow> bool) \<Rightarrow> 'a list \<Rightarrow> nat option" where
  "findIndex P [] = None"
| "findIndex P (x # xs) = (if P x then Some 0 else map_option Suc (findIndex P xs))"

text \<open>
  \<open>saveModal\<close>. \<open>setTree(updater)\<close> applies the updater to the tree;
  \<open>JSON.parse(JSON.stringify(t))\<close> is a deep copy, the same value. The test
  \<^verbatim>\<open>!title || !page || page < 1 || (numPages ? page > numPages : false)\<close>
  reads \<open>page = parseInt(formPage, 10)\<close>, which is NaN (\<open>None\<close>) or an integer; \<open>!page\<close> holds
  of NaN and of \<open>0\<close>, and a \<open>numPages\<close> of \<open>null\<close> or \<open>0\<close> is falsy (\<open>rejected\<close> is this test).
  When a root is added the source calls \<open>createNode\<close> inside the updater, which React runs
  after \<open>showToast\<close> has drawn its uuid; the model draws the node's uuid first, which changes
  which uuid each of the two gets and nothing else.
\<close>

definition rejected :: "string \<Rightarrow> int option \<Rightarrow> int option \<Rightarrow> bool" where
  "rejected title0 page0 numPages0 =
     (title0 = []
      \<or> (case page0 of None \<Rightarrow> True | Some p \<Rightarrow>
            p = 0 \<or> p < 1
            \<or> (case numPages0 of None \<Rightarrow> False | Some n \<Rightarrow> if n \<noteq> 0 then n < p else False)))"

definition saveModal :: "app \<Rightarrow> app" where
  "saveModal s =
     (let title0 = trim (formTitle s);
          page0 = parseIntString (formPage s)
      in if rejected title0 page0 (numPages s)
         then showToast ''Please provide a valid title and page number'' Error s
         else
           (let p = the page0;
                s' =
                  (if modalMode s = AddRoot then
                     (case createNode title0 p s of
                        (node, s1) \<Rightarrow> showToast ''Bookmark added'' Info (s1\<lparr>tree := tree s1 @ [node]\<rparr>))
                   else if modalMode s = AddChild \<and> modalParentId s \<noteq> None then
                     (case createNode title0 p s of
                        (node, s1) \<Rightarrow>
                          showToast ''Child bookmark added'' Info
                            (s1\<lparr>tree := snd (findAndOperate (tree s1) (the (modalParentId s)) (pushChild node))\<rparr>))
                   else if modalMode s = Edit \<and> editingId s \<noteq> None then
                     showToast ''Bookmark updated'' Info
                       (s\<lparr>tree := snd (findAndOperate (tree s) (the (editingId s)) (setTitlePage title0 p))\<rparr>)
                   else s)
            in s'\<lparr>modalOpen := False\<rparr>))"

text \<open>\<open>removeNode\<close>: a root with the id is spliced out of the root array; otherwise the
  search descends.\<close>

definition removeNode :: "uuid \<Rightarrow> app \<Rightarrow> app" where
  "removeNode tid s =
     showToast ''Bookmark removed'' Info
       (s\<lparr>tree :=
            (case findIndex (\<lambda>n. id' n = tid) (tree s) of
               Some idx \<Rightarrow> splice1 (tree s) idx
             | None \<Rightarrow> snd (findAndOperate (tree s) tid splice1))\<rparr>)"

subsection \<open>Import of the document's own outline\<close>

text \<open>
  An outline item of the PDF library: \<open>title\<close> (a string, or absent), \<open>dest\<close> and the
  nested \<open>items\<close>. A destination is absent, a name to look up, or an explicit array, of
  which only the first element matters: a page reference object (\<open>Some ref\<close>) or anything
  else (\<open>None\<close>). The two lookups of the document proxy return or throw.
\<close>

type_synonym pageRef = nat

datatype dest = Absent | NamedRef string | ExplicitRef "pageRef option"









section \<open>The serializer on a store of arrays and objects\<close>

text \<open>
  Whether the serializer mutates what it is given depends on which arrays and objects it
  writes, which the value model above cannot say. Here the forest lives in a store: a
  cell is an array of addresses or a bookmark object whose \<open>children\<close> field is the address
  of an array, or is no array (\<open>None\<close>). An address is an index into the store and a new
  cell is appended. The recursion follows addresses, so it takes fuel: the result is
  \<open>None\<close> when the fuel runs out, and also when an address holds no cell of the kind the
  program reads there, which no store of a forest does.
\<close>

type_synonym addr = nat

datatype cell = ArrayCell "addr list" | ObjectCell jsval "string option" "addr option"

type_synonym store = "cell list"

definition cellAt :: "store \<Rightarrow> addr \<Rightarrow> cell option" where
  "cellAt h a = (if a < length h then Some (h ! a) else None)"

text \<open>The comparator, reading \<open>a.page\<close> and \<open>b.page\<close> in the store; an element that is no
  bookmark object has no \<open>page\<close>.\<close>

definition pageAt :: "store \<Rightarrow> addr \<Rightarrow> jsval" where
  "pageAt h a = (case cellAt h a of Some (ObjectCell p t c) \<Rightarrow> p | _ \<Rightarrow> JUndefined)"

definition byPage_store :: "store \<Rightarrow> addr \<Rightarrow> addr \<Rightarrow> jsnum" where
  "byPage_store h a b =
     jsMinus (orElse (Number (pageAt h a)) (Fin 0)) (orElse (Number (pageAt h b)) (Fin 0))"

text \<open>
  \<open>sortBookmarksByPage(nodes)\<close> on the store: \<open>slice()\<close> allocates the copy, \<open>sort\<close>
  writes the copy in place, \<open>map\<close> allocates one object per element, after the call on its
  \<open>children\<close> (or the new empty array of \<open>[]\<close>), and then the array of the new objects.
\<close>

function sortBookmarksByPage_store :: "nat \<Rightarrow> store \<Rightarrow> addr \<Rightarrow> (addr \<times> store) option"
  and sortChildren_store :: "nat \<Rightarrow> store \<Rightarrow> addr list \<Rightarrow> (addr list \<times> store) option" where
  "sortBookmarksByPage_store 0 h nodes = None"
| "sortBookmarksByPage_store (Suc fuel) h nodes =
     (case cellAt h nodes of
        Some (ArrayCell es) \<Rightarrow>
          (let copy = length h;
               h1 = h @ [ArrayCell es];
               sorted = arraySort (byPage_store h1) es;
               h2 = h1[copy := ArrayCell sorted]
           in case sortChildren_store fuel h2 sorted of
                None \<Rightarrow> None
              | Some (rs, h3) \<Rightarrow> Some (length h3, h3 @ [ArrayCell rs]))
      | _ \<Rightarrow> None)"
| "sortChildren_store fuel h [] = Some ([], h)"
| "sortChildren_store fuel h (n # ns) =
     (case cellAt h n of
        Some (ObjectCell p t ch) \<Rightarrow>
          (case (case ch of
                   Some c \<Rightarrow> sortBookmarksByPage_store fuel h c
                 | None \<Rightarrow> Some (length h, h @ [ArrayCell []])) of
             None \<Rightarrow> None
           | Some (c', h1) \<Rightarrow>
               (case sortChildren_store fuel (h1 @ [ObjectCell p t (Some c')]) ns of
                  None \<Rightarrow> None
                | Some (rs, h3) \<Rightarrow> Some (length h1 # rs, h3)))
      | _ \<Rightarrow> None)"
  by pat_completeness auto
termination
  by (relation "inv_image (less_than <*lex*> less_than)
       (\<lambda>x. case x of Inl (fuel, h, a) \<Rightarrow> (2 * fuel, 0) | Inr (fuel, h, es) \<Rightarrow> (2 * fuel + 1, length es))")
    auto

text \<open>
  \<open>buildPrintedOutline\<close> on the store. It reads the store and writes only \<open>lines\<close>, an
  array of strings made by the outermost call, which stays a value here.
\<close>

definition arrayLength :: "store \<Rightarrow> addr \<Rightarrow> nat" where
  "arrayLength h a = (case cellAt h a of Some (ArrayCell es) \<Rightarrow> length es | _ \<Rightarrow> 0)"

function outlineLines_store :: "nat \<Rightarrow> store \<Rightarrow> addr \<Rightarrow> nat \<Rightarrow> string list \<Rightarrow> string list option"
  and forEach_store :: "nat \<Rightarrow> store \<Rightarrow> addr list \<Rightarrow> nat \<Rightarrow> string list \<Rightarrow> string list option" where
  "outlineLines_store 0 h bookmarks depth lines = None"
| "outlineLines_store (Suc fuel) h bookmarks depth lines =
     (case cellAt h bookmarks of
        Some (ArrayCell es) \<Rightarrow> forEach_store fuel h es depth lines
      | _ \<Rightarrow> None)"
| "forEach_store fuel h [] depth lines = Some lines"
| "forEach_store fuel h (b # bs) depth lines =
     (case cellAt h b of
        Some (ObjectCell p t ch) \<Rightarrow>
          (let lines1 = lines @ [outlineLine (Node p t []) depth]
           in case (case ch of
                      Some c \<Rightarrow>
                        if arrayLength h c > 0 then outlineLines_store fuel h c (depth + 1) lines1
                        else Some lines1
                    | None \<Rightarrow> Some lines1) of
                None \<Rightarrow> None
              | Some lines2 \<Rightarrow> forEach_store fuel h bs depth lines2)
      | _ \<Rightarrow> None)"
  by pat_completeness auto
termination
  by (relation "inv_image (less_than <*lex*> less_than)
       (\<lambda>x. case x of Inl (fuel, h, a, d, l) \<Rightarrow> (2 * fuel, 0) | Inr (fuel, h, es, d, l) \<Rightarrow> (2 * fuel + 1, length es))")
    auto

text \<open>The two lines of \<open>/api/process\<close>, on the store: the descriptor and the store after.\<close>

definition printedOutline_store :: "nat \<Rightarrow> store \<Rightarrow> addr \<Rightarrow> (string \<times> store) option" where
  "printedOutline_store fuel h bookmarks =
     (case sortBookmarksByPage_store fuel h bookmarks of
        None \<Rightarrow> None
      | Some (normalized, h') \<Rightarrow>
          if arrayLength h' normalized > 0
          then (case outlineLines_store fuel h' normalized 0 [] of
                  None \<Rightarrow> None
                | Some lines \<Rightarrow> Some (join [CHR 0x0A] lines, h'))
          else Some ([], h'))"

text \<open>
  A store holds a forest at an address: the array there has one bookmark object per node,
  with the node's page and title, and with the node's children held at its \<open>children\<close>
  address, or with no children array when the node has none.
\<close>

fun holds :: "store \<Rightarrow> addr \<Rightarrow> node list \<Rightarrow> bool"
  and holdsAll :: "store \<Rightarrow> addr list \<Rightarrow> node list \<Rightarrow> bool" where
  "holds h a forest =
     (case cellAt h a of Some (ArrayCell es) \<Rightarrow> holdsAll h es forest | _ \<Rightarrow> False)"
| "holdsAll h [] [] = True"
| "holdsAll h (e # es) (Node p t cs # ns) =
     ((case cellAt h e of
         Some (ObjectCell p' t' ch) \<Rightarrow>
           p' = p \<and> t' = t \<and> (case ch of None \<Rightarrow> cs = [] | Some c \<Rightarrow> holds h c cs)
       | _ \<Rightarrow> False)
      \<and> holdsAll h es ns)"
| "holdsAll h [] (n # ns) = False"
| "holdsAll h (e # es) [] = False"

declare holds.simps [simp del]

text \<open>The fuel a forest needs is its depth.\<close>

fun forestDepth :: "node list \<Rightarrow> nat" where
  "forestDepth [] = 0"
| "forestDepth (Node p t cs # ns) = max (1 + forestDepth cs) (forestDepth ns)"

text \<open>A store holds one node at an address.\<close>

definition holdsNode :: "store \<Rightarrow> addr \<Rightarrow> node \<Rightarrow> bool" where
  "holdsNode h e n = holdsAll h [e] [n]"

text \<open>A forest and a store that holds it at address 4, for the examples.\<close>

definition sampleForest :: "node list" where
  "sampleForest =
     [Node (JInt 5) (Some ''B'') [], Node (JInt 2) (Some ''A'') [Node (JInt 1) (Some ''C'') []]]"

definition sampleStore :: store where
  "sampleStore =
     [ObjectCell (JInt 1) (Some ''C'') None,
      ArrayCell [0],
      ObjectCell (JInt 5) (Some ''B'') None,
      ObjectCell (JInt 2) (Some ''A'') (Some 1),
      ArrayCell [2, 3]]"

section \<open>Vocabulary of the tree store's properties\<close>

text \<open>The ids of a forest, in pre-order.\<close>

fun forestIds :: "tnode list \<Rightarrow> uuid list" where
  "forestIds [] = []"
| "forestIds (TNode i t p cs # ns) = i # forestIds cs @ forestIds ns"

text \<open>The first node, in pre-order, that has the id.\<close>

fun findNode :: "tnode list \<Rightarrow> uuid \<Rightarrow> tnode option" where
  "findNode [] tid = None"
| "findNode (TNode i t p cs # ns) tid =
     (if i = tid then Some (TNode i t p cs)
      else (case findNode cs tid of Some n \<Rightarrow> Some n | None \<Rightarrow> findNode ns tid))"

text \<open>
  Detaching an id, in the words of the specification: every node with the id goes, with
  its whole subtree; every other node stays where it is.
\<close>

fun detach :: "uuid \<Rightarrow> tnode list \<Rightarrow> tnode list" where
  "detach tid [] = []"
| "detach tid (TNode i t p cs # ns) =
     (if i = tid then detach tid ns else TNode i t p (detach tid cs) # detach tid ns)"

text \<open>
  Changing the node of an id, in the words of the specification: the first node, in
  pre-order, that has the id is replaced by \<open>f\<close> of it; every other node stays as it is.
\<close>

fun updateFirst :: "(tnode \<Rightarrow> tnode) \<Rightarrow> uuid \<Rightarrow> tnode list \<Rightarrow> tnode list" where
  "updateFirst f tid [] = []"
| "updateFirst f tid (TNode i t p cs # ns) =
     (if i = tid then f (TNode i t p cs) # ns
      else if tid \<in> set (forestIds cs) then TNode i t p (updateFirst f tid cs) # ns
      else TNode i t p cs # updateFirst f tid ns)"

text \<open>A commit reports a failure when it shows a toast of type \<open>error\<close>.\<close>

definition reportsFailure :: "app \<Rightarrow> app \<Rightarrow> bool" where
  "reportsFailure s s' = list_ex (\<lambda>t. snd (snd t) = Error) (drop (length (toasts s)) (toasts s'))"



text \<open>A state of the editor for the examples: the tree \<open>A(B, C)\<close> of a ten-page document, the
  modal open to add a root titled Intro at page 3.\<close>

definition sampleApp :: app where
  "sampleApp =
     \<lparr>tree = [TNode 1 ''A'' 1 [TNode 2 ''B'' 2 [], TNode 3 ''C'' 3 []]], numPages = Some 10,
      modalOpen = True, modalMode = AddRoot, modalParentId = None, editingId = None,
      formTitle = ''Intro'', formPage = ''3'', toasts = [], nextUuid = 4\<rparr>"




section \<open>Vocabulary of the serializer's properties\<close>

text \<open>
  The numeric order of sort keys, as a linear order: minus infinity, the rationals, plus
  infinity. A sort key is never NaN (\<open>x || 0\<close> replaces it), so its rank there is immaterial.
\<close>

fun keyRank :: "jsnum \<Rightarrow> int \<times> rat" where
  "keyRank NegInf = (- 1, 0)"
| "keyRank (Fin r) = (0, r)"
| "keyRank PosInf = (1, 0)"
| "keyRank NaN = (0, 0)"

definition pageRank :: "node \<Rightarrow> int \<times> rat" where
  "pageRank n = keyRank (sortKey n)"

text \<open>The sibling lists of a forest: the root sequence and every children list.\<close>

fun childLists :: "node list \<Rightarrow> node list list" where
  "childLists [] = []"
| "childLists (Node p t cs # ns) = (cs # childLists cs) @ childLists ns"

definition siblingLists :: "node list \<Rightarrow> node list list" where
  "siblingLists forest = forest # childLists forest"

text \<open>The pre-order listing of a forest, each node with its depth.\<close>

fun preorder :: "nat \<Rightarrow> node list \<Rightarrow> (node \<times> nat) list" where
  "preorder d [] = []"
| "preorder d (Node p t cs # ns) = (Node p t cs, d) # preorder (d + 1) cs @ preorder d ns"

text \<open>The number of nodes of a forest.\<close>

fun countNodes :: "node list \<Rightarrow> nat" where
  "countNodes [] = 0"
| "countNodes (Node p t cs # ns) = 1 + countNodes cs + countNodes ns"

section \<open>Properties of the serializer\<close>

lemma sortKey_not_NaN: "sortKey a \<noteq> NaN"
  by (simp add: sortKey_def orElse_def truthy_def)

lemma positive_jsMinus: "a \<noteq> NaN \<Longrightarrow> b \<noteq> NaN \<Longrightarrow> positive (jsMinus a b) = (keyRank b < keyRank a)"
  by (cases a; cases b) (simp_all add: positive_def)

lemma positive_byPage: "positive (byPage a b) = (\<not> pageRank a \<le> pageRank b)"
  by (simp add: byPage_def pageRank_def positive_jsMinus sortKey_not_NaN not_le)

lemma sortInsert_byPage: "sortInsert byPage a bs = insort_key pageRank a bs"
  by (induction bs) (simp_all add: positive_byPage)

lemma arraySort_byPage: "arraySort byPage as = sort_key pageRank as"
  by (induction as) (simp_all add: sortInsert_byPage)

lemma outlineLines_acc_all: "\<forall>lines. outlineLines bs d lines = lines @ outlineLines bs d []"
proof (induction bs d "lines0::string list" rule: outlineLines.induct)
  case (1 depth lines)
  show ?case by simp
next
  case (2 p t cs bookmarks depth lines)
  show ?case
  proof
    fix ls :: "string list"
    let ?l = "outlineLine (Node p t cs) depth"
    show "outlineLines (Node p t cs # bookmarks) depth ls = ls @ outlineLines (Node p t cs # bookmarks) depth []"
    proof (cases "cs = []")
      case True
      have a: "outlineLines bookmarks depth (ls @ [?l]) = (ls @ [?l]) @ outlineLines bookmarks depth []"
        using 2(2) by blast
      have b: "outlineLines bookmarks depth [?l] = [?l] @ outlineLines bookmarks depth []"
        using 2(2) by blast
      show ?thesis using True a b by (simp add: Let_def)
    next
      case False
      have c: "\<And>ks. outlineLines cs (depth + 1) ks = ks @ outlineLines cs (depth + 1) []"
        using 2(1) False by blast
      have d: "\<And>ks. outlineLines bookmarks depth ks = ks @ outlineLines bookmarks depth []"
        using 2(2) by blast
      have "outlineLines (Node p t cs # bookmarks) depth ls
          = outlineLines bookmarks depth (outlineLines cs (depth + 1) (ls @ [?l]))"
        using False by (simp add: Let_def)
      also have "\<dots> = (ls @ [?l]) @ outlineLines cs (depth + 1) [] @ outlineLines bookmarks depth []"
        using c [of "ls @ [?l]"] d [of "(ls @ [?l]) @ outlineLines cs (depth + 1) []"] by simp
      finally have e: "outlineLines (Node p t cs # bookmarks) depth ls
          = (ls @ [?l]) @ outlineLines cs (depth + 1) [] @ outlineLines bookmarks depth []" .
      have "outlineLines (Node p t cs # bookmarks) depth []
          = outlineLines bookmarks depth (outlineLines cs (depth + 1) [?l])"
        using False by (simp add: Let_def)
      also have "\<dots> = [?l] @ outlineLines cs (depth + 1) [] @ outlineLines bookmarks depth []"
        using c [of "[?l]"] d [of "[?l] @ outlineLines cs (depth + 1) []"] by simp
      finally show ?thesis using e by simp
    qed
  qed
qed

lemma pageRank_sortChildren: "pageRank (sortChildren n) = pageRank n"
  by (cases n) (simp add: pageRank_def sortKey_def)

lemma sortBookmarksByPage_sort_key: "sortBookmarksByPage nodes = map sortChildren (sort_key pageRank nodes)"
  by (simp add: sortBookmarksByPage.simps arraySort_byPage)

lemma sorted_sortBookmarksByPage: "sorted (map pageRank (sortBookmarksByPage nodes))"
  by (simp add: sortBookmarksByPage_sort_key comp_def pageRank_sortChildren)

lemma childLists_Cons: "childLists (n # ns) = childLists [n] @ childLists ns"
  by (cases n) simp

lemma childLists_map:
  "(\<And>x. x \<in> set xs \<Longrightarrow> list_all S (childLists [f x])) \<Longrightarrow> list_all S (childLists (map f xs))"
proof (induction xs)
  case Nil
  then show ?case by simp
next
  case (Cons x xs)
  have "childLists (map f (x # xs)) = childLists [f x] @ childLists (map f xs)"
    using childLists_Cons [of "f x" "map f xs"] by simp
  with Cons show ?case by simp
qed

lemma siblingLists_sorted:
  "list_all (\<lambda>l. sorted (map pageRank l)) (siblingLists (sortBookmarksByPage nodes))"
  "list_all (\<lambda>l. sorted (map pageRank l)) (childLists [sortChildren n])"
proof (induction nodes and n rule: sortBookmarksByPage_sortChildren.induct)
  case (1 nodes)
  have "list_all (\<lambda>l. sorted (map pageRank l)) (childLists (map sortChildren (arraySort byPage nodes)))"
    by (rule childLists_map) (rule 1)
  then show ?case
    by (simp add: siblingLists_def sorted_sortBookmarksByPage) (simp add: sortBookmarksByPage.simps)
next
  case (2 p t cs)
  then show ?case by (simp add: siblingLists_def)
qed

lemma stable_sortBookmarksByPage:
  "filter (\<lambda>n. pageRank n = k) (sortBookmarksByPage nodes) = map sortChildren (filter (\<lambda>n. pageRank n = k) nodes)"
proof -
  have "filter (\<lambda>n. pageRank n = k) (map sortChildren (sort_key pageRank nodes))
      = map sortChildren (filter (\<lambda>n. pageRank n = k) (sort_key pageRank nodes))"
    by (simp add: filter_map comp_def pageRank_sortChildren)
  then show ?thesis
    by (simp add: sortBookmarksByPage_sort_key sort_key_stable)
qed

lemma keyRank_inj: "a \<noteq> NaN \<Longrightarrow> b \<noteq> NaN \<Longrightarrow> keyRank a = keyRank b \<Longrightarrow> a = b"
  by (cases a; cases b) simp_all

lemma pageRank_eq_iff: "pageRank a = pageRank b \<longleftrightarrow> sortKey a = sortKey b"
  using keyRank_inj [OF sortKey_not_NaN sortKey_not_NaN] by (auto simp: pageRank_def)

lemma outlineLines_acc: "outlineLines bs d lines = lines @ outlineLines bs d []"
  using outlineLines_acc_all by blast

lemma outlineLines_Cons:
  "outlineLines (Node p t cs # bs) d [] =
     outlineLine (Node p t cs) d # outlineLines cs (d + 1) [] @ outlineLines bs d []"
proof (cases "cs = []")
  case True
  then show ?thesis
    using outlineLines_acc [of bs d "[outlineLine (Node p t cs) d]"] by (simp add: Let_def)
next
  case False
  then show ?thesis
    using outlineLines_acc [of cs "d + 1" "[outlineLine (Node p t cs) d]"]
      outlineLines_acc [of bs d "outlineLine (Node p t cs) d # outlineLines cs (d + 1) []"]
    by (simp add: Let_def)
qed

lemma outlineLines_preorder:
  "outlineLines bs d [] = map (\<lambda>(b, depth). outlineLine b depth) (preorder d bs)"
  by (induction d bs rule: preorder.induct) (simp_all add: outlineLines_Cons del: outlineLines.simps(2))

lemma length_preorder: "length (preorder d bs) = countNodes bs"
  by (induction d bs rule: preorder.induct) simp_all

lemma countNodes_append: "countNodes (xs @ ys) = countNodes xs + countNodes ys"
  by (induction xs rule: countNodes.induct) simp_all

lemma countNodes_insort_key: "countNodes (insort_key f x xs) = countNodes [x] + countNodes xs"
proof (induction xs)
  case Nil
  then show ?case by simp
next
  case (Cons y ys)
  then show ?case by (cases x; cases y) simp
qed

lemma countNodes_sort_key: "countNodes (sort_key f xs) = countNodes xs"
proof (induction xs)
  case Nil
  then show ?case by simp
next
  case (Cons x xs)
  then show ?case
    using countNodes_insort_key [of f x "sort_key f xs"] countNodes_append [of "[x]" xs] by simp
qed

lemma countNodes_map:
  "(\<And>x. x \<in> set xs \<Longrightarrow> countNodes [f x] = countNodes [x]) \<Longrightarrow> countNodes (map f xs) = countNodes xs"
proof (induction xs)
  case Nil
  then show ?case by simp
next
  case (Cons x xs)
  then show ?case
    using countNodes_append [of "[f x]" "map f xs"] countNodes_append [of "[x]" xs] by simp
qed

lemma countNodes_sortBookmarksByPage:
  "countNodes (sortBookmarksByPage nodes) = countNodes nodes"
  "countNodes [sortChildren n] = countNodes [n]"
proof (induction nodes and n rule: sortBookmarksByPage_sortChildren.induct)
  case (1 nodes)
  have "countNodes (map sortChildren (arraySort byPage nodes)) = countNodes (arraySort byPage nodes)"
    by (rule countNodes_map) (rule 1)
  then show ?case
    by (simp add: sortBookmarksByPage.simps arraySort_byPage countNodes_sort_key)
next
  case (2 p t cs)
  then show ?case by simp
qed

lemma sortBookmarksByPage_Nil: "sortBookmarksByPage [] = []"
  by (simp add: sortBookmarksByPage.simps)

lemma length_sortBookmarksByPage: "length (sortBookmarksByPage nodes) = length nodes"
  by (simp add: sortBookmarksByPage_sort_key)

lemma join_Nil_iff: "join sep ls = [] \<longleftrightarrow> ls = [] \<or> (sep = [] \<and> (\<forall>l \<in> set ls. l = [])) \<or> ls = [[]]"
  by (induction sep ls rule: join.induct) auto

lemma outlineLine_not_Nil: "outlineLine b d \<noteq> []"
  by (simp add: outlineLine_def)

lemma printedOutline_Some:
  "printedOutline (Some forest) = join [CHR 0x0A] (outlineLines (sortBookmarksByPage forest) 0 [])"
proof (cases "sortBookmarksByPage forest")
  case Nil
  then show ?thesis by (simp add: printedOutline_def)
next
  case (Cons a as)
  then show ?thesis by (simp add: printedOutline_def buildPrintedOutline_def del: outlineLines.simps)
qed

lemma printedOutline_empty_iff: "printedOutline (Some forest) = [] \<longleftrightarrow> forest = []"
proof (cases forest)
  case Nil
  then show ?thesis by (simp add: printedOutline_def sortBookmarksByPage.simps)
next
  case (Cons a as)
  then have "sortBookmarksByPage forest \<noteq> []"
    using length_sortBookmarksByPage [of forest] by auto
  then obtain b bs where s: "sortBookmarksByPage forest = b # bs"
    by (cases "sortBookmarksByPage forest") auto
  obtain p t cs where b: "b = Node p t cs" by (cases b) auto
  have "outlineLines (sortBookmarksByPage forest) 0 [] = outlineLine b 0 # outlineLines cs 1 [] @ outlineLines bs 0 []"
    using outlineLines_Cons [of p t cs bs 0] by (simp add: s b)
  then have "join [CHR 0x0A] (outlineLines (sortBookmarksByPage forest) 0 []) \<noteq> []"
    using outlineLine_not_Nil [of b 0] by (simp add: join_Nil_iff)
  then show ?thesis using Cons by (simp add: printedOutline_Some)
qed

lemma digitChar_digit: "d < 10 \<Longrightarrow> isDigit (digitChar d)"
proof -
  assume "d < 10"
  then have "d \<in> {0, 1, 2, 3, 4, 5, 6, 7, 8, 9}" by auto
  then show ?thesis by (auto simp: isDigit_def digitChar_def)
qed

lemma natToString_digits: "list_all isDigit (natToString n)"
proof (induction n rule: natToString.induct)
  case (1 n)
  show ?case
  proof (cases "n < 10")
    case True
    then show ?thesis by (subst natToString.simps) (simp add: digitChar_digit)
  next
    case False
    then show ?thesis using 1 by (subst natToString.simps) (simp add: digitChar_digit)
  qed
qed

lemma newline_notin_intToString: "CHR 0x0A \<notin> set (intToString i)"
proof -
  have "\<not> isDigit (CHR 0x0A)" by (simp add: isDigit_def)
  then have "CHR 0x0A \<notin> set (natToString n)" for n
    using natToString_digits [of n] by (auto simp: list_all_iff)
  then show ?thesis by (simp add: intToString_def)
qed

lemma newline_notin_outlineLine: "CHR 0x0A \<notin> set (outlineLine b d)"
  by (auto simp: outlineLine_def emitTitle_def newline_notin_intToString)

text \<open>
  \<^bold>\<open>C1.\<close> For every forest, \<open>sortBookmarksByPage\<close> orders the siblings of every level, the
  root sequence and each node's children list, by \<open>Number(page) || 0\<close> ascending
  (\<open>pageRank\<close> is that key in the order of the numbers), and stably: the nodes of any one
  key \<open>k\<close> stand in the output in the order they had in the input, each with its children
  sorted in the same way. A page that is missing, or that \<open>Number\<close> cannot read, has key
  \<open>0\<close>. Two siblings of page 5 titled B and A, in that order, print B before A.
\<close>

theorem sortBookmarksByPage_sorts_siblings_stably:
  "list_all (\<lambda>siblings. sorted (map pageRank siblings)) (siblingLists (sortBookmarksByPage forest))
   \<and> filter (\<lambda>n. sortKey n = k) (sortBookmarksByPage forest)
       = map sortChildren (filter (\<lambda>n. sortKey n = k) forest)
   \<and> children (sortChildren n) = sortBookmarksByPage (children n)
   \<and> (page n = JUndefined \<or> Number (page n) = NaN \<longrightarrow> sortKey n = Fin 0)
   \<and> printedOutline (Some [Node (JInt 5) (Some ''B'') [], Node (JInt 5) (Some ''A'') []])
       = ''5||B'' @ [CHR 0x0A] @ ''5||A''"
proof -
  have stable: "filter (\<lambda>n. sortKey n = k) (sortBookmarksByPage forest)
       = map sortChildren (filter (\<lambda>n. sortKey n = k) forest)"
  proof (cases "k = NaN")
    case True
    then show ?thesis by (simp add: sortKey_not_NaN)
  next
    case False
    then have "(sortKey m = k) = (pageRank m = keyRank k)" for m
      using keyRank_inj [OF sortKey_not_NaN False, of m] by (auto simp: pageRank_def)
    then show ?thesis
      using stable_sortBookmarksByPage [of "keyRank k" forest] by simp
  qed
  have kids: "children (sortChildren n) = sortBookmarksByPage (children n)"
    by (cases n) simp
  have dflt: "page n = JUndefined \<or> Number (page n) = NaN \<longrightarrow> sortKey n = Fin 0"
    by (auto simp: sortKey_def orElse_def truthy_def)
  have ex: "printedOutline (Some [Node (JInt 5) (Some ''B'') [], Node (JInt 5) (Some ''A'') []])
       = ''5||B'' @ [CHR 0x0A] @ ''5||A''"
    by code_simp
  show ?thesis
    using siblingLists_sorted(1) [of forest] stable kids dflt ex by blast
qed

theorem sortBookmarksByPage_sorts_siblings_stably_witness:
  "list_all (\<lambda>siblings. sorted (map pageRank siblings))
     (siblingLists (sortBookmarksByPage
        [Node (JInt 5) (Some ''B'') [Node (JInt 9) None [], Node (JString ''n/a'') None []],
         Node (JInt 2) (Some ''C'') [], Node (JInt 5) (Some ''A'') []]))
   \<and> filter (\<lambda>n. sortKey n = Fin 5) (sortBookmarksByPage
        [Node (JInt 5) (Some ''B'') [Node (JInt 9) None [], Node (JString ''n/a'') None []],
         Node (JInt 2) (Some ''C'') [], Node (JInt 5) (Some ''A'') []])
       = [Node (JInt 5) (Some ''B'') [Node (JString ''n/a'') None [], Node (JInt 9) None []],
          Node (JInt 5) (Some ''A'') []]
   \<and> Number (page (Node (JString ''n/a'') None [])) = NaN
   \<and> sortKey (Node (JString ''n/a'') None []) = Fin 0"
proof -
  have nan: "Number (page (Node (JString ''n/a'') None [])) = NaN"
    by code_simp
  have k5: "sortKey (Node (JInt 5) t cs) = Fin 5" for t cs
    by (simp add: sortKey_def orElse_def truthy_def)
  have k2: "sortKey (Node (JInt 2) t cs) = Fin 2" for t cs
    by (simp add: sortKey_def orElse_def truthy_def)
  have kids: "sortBookmarksByPage [Node (JInt 9) None [], Node (JString ''n/a'') None []]
      = [Node (JString ''n/a'') None [], Node (JInt 9) None []]"
    by code_simp
  show ?thesis
    using sortBookmarksByPage_sorts_siblings_stably
      [of "[Node (JInt 5) (Some ''B'') [Node (JInt 9) None [], Node (JString ''n/a'') None []],
            Node (JInt 2) (Some ''C'') [], Node (JInt 5) (Some ''A'') []]"
          "Fin 5" "Node (JString ''n/a'') None []"] nan
    by (simp add: k5 k2 kids sortBookmarksByPage_Nil)
qed

text \<open>
  \<^bold>\<open>C2.\<close> The descriptor of a forest is the pre-order listing of the sorted forest (a node,
  then its children one level deeper, then its next sibling), one line per node, joined with
  the newline character; a line is the page, a bar, as many dashes as the node is deep, a bar,
  and the title with each newline replaced by a space, so no line holds a newline. A root
  with a child with a grandchild (pages 1, 2, 3) prints as the three lines of the
  specification.
\<close>

theorem printedOutline_preorder_lines:
  "printedOutline (Some forest)
     = join [CHR 0x0A]
         (map (\<lambda>(b, depth).
                 intToString (emitPage b) @ ''|'' @ replicate depth CHR ''-'' @ ''|''
                 @ map (\<lambda>c. if c = CHR 0x0A then CHR '' '' else c)
                     (case title b of None \<Rightarrow> [] | Some t \<Rightarrow> t))
              (preorder 0 (sortBookmarksByPage forest)))
   \<and> length (outlineLines (sortBookmarksByPage forest) 0 []) = countNodes forest
   \<and> CHR 0x0A \<notin> set (outlineLine b depth)
   \<and> printedOutline (Some
         [Node (JInt 1) (Some ''Root'')
            [Node (JInt 2) (Some ''Child'') [Node (JInt 3) (Some ''Grandchild'') []]]])
       = ''1||Root'' @ [CHR 0x0A] @ ''2|-|Child'' @ [CHR 0x0A] @ ''3|--|Grandchild''"
proof -
  have lines: "(\<lambda>(b, depth). outlineLine b depth)
      = (\<lambda>(b, depth).
                 intToString (emitPage b) @ ''|'' @ replicate depth CHR ''-'' @ ''|''
                 @ map (\<lambda>c. if c = CHR 0x0A then CHR '' '' else c)
                     (case title b of None \<Rightarrow> [] | Some t \<Rightarrow> t))"
    by (simp add: fun_eq_iff outlineLine_def emitTitle_def)
  have a: "printedOutline (Some forest)
     = join [CHR 0x0A] (map (\<lambda>(b, depth). outlineLine b depth) (preorder 0 (sortBookmarksByPage forest)))"
    by (simp only: printedOutline_Some outlineLines_preorder)
  have b: "length (outlineLines (sortBookmarksByPage forest) 0 []) = countNodes forest"
    by (simp add: outlineLines_preorder length_preorder countNodes_sortBookmarksByPage(1))
  have c: "printedOutline (Some
         [Node (JInt 1) (Some ''Root'')
            [Node (JInt 2) (Some ''Child'') [Node (JInt 3) (Some ''Grandchild'') []]]])
       = ''1||Root'' @ [CHR 0x0A] @ ''2|-|Child'' @ [CHR 0x0A] @ ''3|--|Grandchild''"
    by code_simp
  show ?thesis
    using a b c newline_notin_outlineLine [of b depth] unfolding lines by blast
qed

lemma trimEnd_take: "\<exists>n. trimEnd u = take n u"
proof -
  have "dropWhile isWhiteSpace (rev u) = drop (length (takeWhile isWhiteSpace (rev u))) (rev u)"
    by (rule dropWhile_eq_drop)
  then have "trimEnd u = take (length u - length (takeWhile isWhiteSpace (rev u))) u"
    by (simp add: trimEnd_def rev_drop)
  then show ?thesis by blast
qed

lemma hd_trim:
  assumes "trim s \<noteq> []"
  shows "trimStart s \<noteq> [] \<and> hd (trimStart s) = hd (trim s)"
proof -
  obtain n where n: "trim s = take n (trimStart s)"
    using trimEnd_take [of "trimStart s"] by (auto simp: trim_def)
  with assms show ?thesis by (cases "trimStart s"; cases n) auto
qed

lemma unreadable_string:
  assumes "trim s \<noteq> []" "hd (trim s) \<notin> set ''0123456789+-.I''"
  shows "Number (JString s) = NaN \<and> parseInt (JString s) = None"
proof -
  obtain c cs where t: "trim s = c # cs"
    using assms(1) by (cases "trim s") auto
  with assms(2) have c: "c \<notin> set ''0123456789+-.I''" by simp
  then have nd: "\<not> isDigit c" by (auto simp: isDigit_def)
  from hd_trim [OF assms(1)] t obtain ds where u: "trimStart s = c # ds"
    by (cases "trimStart s") auto
  have p: "parseIntString s = None"
    using c nd by (simp add: parseIntString_def u Let_def)
  have "c \<noteq> CHR ''0''" using c by auto
  then have nd2: "nonDecimalIntegerLiteral (c # cs) = None"
    by (cases cs) (auto simp: nonDecimalIntegerLiteral_def Let_def)
  have inf: "c # cs \<noteq> ''Infinity''" using c by auto
  have "strUnsignedDecimalLiteral (c # cs) = NaN"
    using c nd inf by (simp add: strUnsignedDecimalLiteral_def Let_def)
  then have "strDecimalLiteral (c # cs) = NaN"
    using c by (simp add: strDecimalLiteral_def)
  then have "StringToNumber s = NaN"
    using nd2 by (simp add: StringToNumber_def t)
  with p show ?thesis by (simp add: parseInt_def)
qed

text \<open>
  \<^bold>\<open>C3\<close>, as stated, fails. The page \<open>3abc\<close> is no number to \<open>Number\<close> and has sort key
  \<open>0\<close>, but it is printed as \<open>3\<close>, not \<open>1\<close>: \<open>parseInt\<close> reads its leading digits. The page
  \<open>0x10\<close> is printed with the default \<open>1\<close>, for \<open>parseInt\<close> reads \<open>0\<close> from it, but its sort
  key is \<open>16\<close>, not \<open>0\<close>.
\<close>

theorem unparseable_page_takes_one_default_only:
  "Number (JString ''3abc'') = NaN
   \<and> sortKey (Node (JString ''3abc'') (Some ''X'') []) = Fin 0
   \<and> emitPage (Node (JString ''3abc'') (Some ''X'') []) = 3
   \<and> printedOutline (Some [Node (JString ''3abc'') (Some ''X'') []]) = ''3||X''
   \<and> parseInt (JString ''0x10'') = Some 0
   \<and> emitPage (Node (JString ''0x10'') (Some ''Y'') []) = 1
   \<and> sortKey (Node (JString ''0x10'') (Some ''Y'') []) = Fin 16"
proof -
  have a: "Number (JString ''3abc'') = NaN" "parseInt (JString ''3abc'') = Some 3"
    by code_simp+
  have b: "printedOutline (Some [Node (JString ''3abc'') (Some ''X'') []]) = ''3||X''"
    by code_simp
  have c: "parseInt (JString ''0x10'') = Some 0" "Number (JString ''0x10'') = Fin 16"
    by code_simp+
  show ?thesis
    using a b c by (simp add: sortKey_def orElse_def truthy_def emitPage_def)
qed

text \<open>
  \<^bold>\<open>C3\<close>, amended. The sort key is \<open>0\<close> whenever \<open>Number\<close> reads no number, or \<open>0\<close>, from the
  page, and the printed page is \<open>1\<close> whenever \<open>parseInt\<close> reads no number, or \<open>0\<close>, from it. A node whose
  page is missing or \<open>null\<close>, or is a value neither coercion reads a number from (such as a
  string whose first non-blank character is no digit, sign or dot and not the \<open>I\<close> of
  \<open>Infinity\<close>), has both: sort key \<open>0\<close> and printed page \<open>1\<close>.
\<close>

theorem page_defaults_0_in_sort_1_in_print:
  "(Number (page b) = NaN \<or> Number (page b) = Fin 0 \<longrightarrow> sortKey b = Fin 0)
   \<and> (parseInt (page b) = None \<or> parseInt (page b) = Some 0 \<longrightarrow>
        emitPage b = 1
        \<and> outlineLine b depth = ''1|'' @ replicate depth CHR ''-'' @ ''|'' @ emitTitle b)
   \<and> (page b = JUndefined \<or> page b = JNull
        \<or> (\<exists>s. page b = JString s \<and> trim s \<noteq> [] \<and> hd (trim s) \<notin> set ''0123456789+-.I'')
        \<or> (Number (page b) = NaN \<and> parseInt (page b) = None) \<longrightarrow>
        sortKey b = Fin 0 \<and> emitPage b = 1
        \<and> outlineLine b depth = ''1|'' @ replicate depth CHR ''-'' @ ''|'' @ emitTitle b)"
proof -
  have u: "parseInt JUndefined = None" "parseInt JNull = None" by code_simp+
  have one: "intToString 1 = ''1''" by code_simp
  have k: "Number (page b) = NaN \<or> Number (page b) = Fin 0 \<longrightarrow> sortKey b = Fin 0"
    by (auto simp: sortKey_def orElse_def truthy_def)
  have e: "parseInt (page b) = None \<or> parseInt (page b) = Some 0 \<longrightarrow>
        emitPage b = 1
        \<and> outlineLine b depth = ''1|'' @ replicate depth CHR ''-'' @ ''|'' @ emitTitle b"
    by (auto simp: emitPage_def outlineLine_def one)
  have "(Number (page b) = NaN \<or> Number (page b) = Fin 0) \<and> parseInt (page b) = None"
    if "page b = JUndefined \<or> page b = JNull
        \<or> (\<exists>s. page b = JString s \<and> trim s \<noteq> [] \<and> hd (trim s) \<notin> set ''0123456789+-.I'')
        \<or> (Number (page b) = NaN \<and> parseInt (page b) = None)"
    using that u unreadable_string by auto
  then have both: "page b = JUndefined \<or> page b = JNull
        \<or> (\<exists>s. page b = JString s \<and> trim s \<noteq> [] \<and> hd (trim s) \<notin> set ''0123456789+-.I'')
        \<or> (Number (page b) = NaN \<and> parseInt (page b) = None) \<longrightarrow>
        sortKey b = Fin 0 \<and> emitPage b = 1
        \<and> outlineLine b depth = ''1|'' @ replicate depth CHR ''-'' @ ''|'' @ emitTitle b"
    using e by (auto simp: sortKey_def orElse_def truthy_def)
  show ?thesis
    using k e both by blast
qed

lemma trim_na: "trim ''n/a'' = ''n/a''"
  by code_simp

theorem page_defaults_0_in_sort_1_in_print_witness:
  "sortKey (Node JUndefined (Some ''Intro'') []) = Fin 0
   \<and> emitPage (Node JUndefined (Some ''Intro'') []) = 1
   \<and> outlineLine (Node JUndefined (Some ''Intro'') []) 2 = ''1|--|Intro''
   \<and> trim ''n/a'' \<noteq> [] \<and> hd (trim ''n/a'') \<notin> set ''0123456789+-.I''
   \<and> sortKey (Node (JString ''n/a'') None []) = Fin 0
   \<and> emitPage (Node (JString ''n/a'') None []) = 1
   \<and> Number (JString ''12px'') = NaN
   \<and> sortKey (Node (JString ''12px'') None []) = Fin 0
   \<and> parseInt (JString ''0.5'') = Some 0
   \<and> emitPage (Node (JString ''0.5'') None []) = 1
   \<and> printedOutline (Some [Node (JInt 1) (Some ''One'') [], Node JUndefined (Some ''Intro'') []])
       = ''1||Intro'' @ [CHR 0x0A] @ ''1||One''"
proof -
  have na: "trim ''n/a'' \<noteq> [] \<and> hd (trim ''n/a'') \<notin> set ''0123456789+-.I''"
    by (simp add: trim_na)
  have px: "Number (JString ''12px'') = NaN" and half: "parseInt (JString ''0.5'') = Some 0"
    by code_simp+
  have t: "emitTitle (Node JUndefined (Some ''Intro'') []) = ''Intro''"
    by code_simp
  have ex: "printedOutline (Some [Node (JInt 1) (Some ''One'') [], Node JUndefined (Some ''Intro'') []])
       = ''1||Intro'' @ [CHR 0x0A] @ ''1||One''"
    by code_simp
  have a: "sortKey (Node JUndefined (Some ''Intro'') []) = Fin 0
      \<and> emitPage (Node JUndefined (Some ''Intro'') []) = 1
      \<and> outlineLine (Node JUndefined (Some ''Intro'') []) 2
          = ''1|'' @ replicate 2 CHR ''-'' @ ''|'' @ emitTitle (Node JUndefined (Some ''Intro'') [])"
    using page_defaults_0_in_sort_1_in_print [of "Node JUndefined (Some ''Intro'') []" 2] by simp
  have b: "sortKey (Node (JString ''n/a'') None []) = Fin 0 \<and> emitPage (Node (JString ''n/a'') None []) = 1"
    using page_defaults_0_in_sort_1_in_print [of "Node (JString ''n/a'') None []" 0] na by simp
  have c: "sortKey (Node (JString ''12px'') None []) = Fin 0"
    using page_defaults_0_in_sort_1_in_print [of "Node (JString ''12px'') None []" 0] px by simp
  have d: "emitPage (Node (JString ''0.5'') None []) = 1"
    using page_defaults_0_in_sort_1_in_print [of "Node (JString ''0.5'') None []" 0] half by simp
  show ?thesis
    using a b c d na px half ex by (simp add: t numeral_2_eq_2)
qed

text \<open>
  \<^bold>\<open>C4.\<close> The descriptor is the empty string exactly when the forest is empty. A forest
  of one node with the empty title prints as \<open>1||\<close>, which is not the descriptor of the
  empty forest.
\<close>

theorem printedOutline_empty_only_for_empty_forest:
  "(printedOutline (Some forest) = [] \<longleftrightarrow> forest = [])
   \<and> printedOutline (Some [Node (JInt 1) (Some []) []]) = ''1||''
   \<and> printedOutline (Some [Node (JInt 1) (Some []) []]) \<noteq> printedOutline (Some [])"
proof -
  have ex: "printedOutline (Some [Node (JInt 1) (Some []) []]) = ''1||''"
    by code_simp
  have e: "printedOutline (Some []) = []"
    by (simp add: printedOutline_empty_iff)
  show ?thesis
    using printedOutline_empty_iff [of forest] by (simp add: ex e)
qed

section \<open>Properties of the tree store\<close>

lemma forestIds_append: "forestIds (xs @ ys) = forestIds xs @ forestIds ys"
  by (induction xs rule: forestIds.induct) simp_all

lemma forestIds_single: "forestIds [n] = id' n # forestIds (children' n)"
  by (cases n) simp

lemma forestIds_Cons: "forestIds (n # ns) = id' n # forestIds (children' n) @ forestIds ns"
  by (cases n) simp

lemma forestIds_nth:
  "i < length nodes \<Longrightarrow>
     forestIds nodes = forestIds (take i nodes) @ id' (nodes ! i) # forestIds (children' (nodes ! i)) @ forestIds (drop (Suc i) nodes)"
proof -
  assume "i < length nodes"
  then have "nodes = take i nodes @ nodes ! i # drop (Suc i) nodes"
    by (rule id_take_nth_drop)
  then have "forestIds nodes = forestIds (take i nodes @ nodes ! i # drop (Suc i) nodes)"
    by simp
  then show ?thesis
    by (simp only: forestIds_append forestIds_Cons)
qed

lemma setChildren_same: "setChildren n (children' n) = n"
  by (cases n) (simp add: setChildren_def)

lemma findAndOperate_from_miss:
  "tid \<notin> set (forestIds nodes) \<Longrightarrow> findAndOperate_from i nodes tid operate = (False, nodes)"
proof (induction i nodes tid operate rule: findAndOperate_from.induct)
  case (1 i nodes tid operate)
  show ?case
  proof (cases "i < length nodes")
    case False
    then show ?thesis by (subst findAndOperate_from.simps) simp
  next
    case True
    from forestIds_nth [OF True] 1(4)
    have a: "id' (nodes ! i) \<noteq> tid" and b: "tid \<notin> set (forestIds (children' (nodes ! i)))"
      by auto
    show ?thesis
    proof (cases "children' (nodes ! i) = []")
      case True
      have "findAndOperate_from (i + 1) nodes tid operate = (False, nodes)"
        using 1(3) \<open>i < length nodes\<close> a True 1(4) by simp
      then show ?thesis
        using \<open>i < length nodes\<close> a True by (subst findAndOperate_from.simps) simp
    next
      case False
      have inner: "findAndOperate_from 0 (children' (nodes ! i)) tid operate = (False, children' (nodes ! i))"
        using 1(1) \<open>i < length nodes\<close> a False b by simp
      have "findAndOperate_from (i + 1) (nodes[i := setChildren (nodes ! i) (children' (nodes ! i))]) tid operate
          = (False, nodes[i := setChildren (nodes ! i) (children' (nodes ! i))])"
      proof (rule 1(2) [OF \<open>i < length nodes\<close> a False inner [symmetric]])
        show "\<not> False" by simp
        show "tid \<notin> set (forestIds (nodes[i := setChildren (nodes ! i) (children' (nodes ! i))]))"
          using 1(4) by (simp add: setChildren_same)
      qed
      then show ?thesis
        using \<open>i < length nodes\<close> a False inner
        by (subst findAndOperate_from.simps) (simp add: setChildren_same)
    qed
  qed
qed


lemma findAndOperate_miss:
  "tid \<notin> set (forestIds nodes) \<Longrightarrow> findAndOperate nodes tid operate = (False, nodes)"
  by (simp add: findAndOperate_def findAndOperate_from_miss)

lemma findIndex_None: "(findIndex P xs = None) = (\<forall>x \<in> set xs. \<not> P x)"
  by (induction xs) auto

lemma findIndex_Some:
  "findIndex P xs = Some i \<Longrightarrow> i < length xs \<and> P (xs ! i) \<and> (\<forall>j < i. \<not> P (xs ! j))"
proof (induction xs arbitrary: i)
  case Nil
  then show ?case by simp
next
  case (Cons x xs)
  show ?case
  proof (cases "P x")
    case True
    with Cons.prems show ?thesis by simp
  next
    case False
    with Cons.prems obtain k where k: "findIndex P xs = Some k" "i = Suc k" by auto
    from Cons.IH [OF k(1)] False k(2) show ?thesis
      by (auto simp: less_Suc_eq_0_disj)
  qed
qed

lemma root_id_in_forestIds: "n \<in> set nodes \<Longrightarrow> id' n \<in> set (forestIds nodes)"
  by (induction nodes rule: forestIds.induct) auto

lemma findIndex_miss: "tid \<notin> set (forestIds nodes) \<Longrightarrow> findIndex (\<lambda>n. id' n = tid) nodes = None"
  using root_id_in_forestIds by (auto simp: findIndex_None)



lemma reportsFailure_showToast_Error: "reportsFailure s (showToast m Error s)"
  by (simp add: reportsFailure_def showToast_def)

text \<open>
  \<^bold>\<open>C5.\<close> A commit, in any mode of the modal, whose title is empty after trimming, or
  whose page field does not parse to an integer, or parses to one below 1, or to one above the
  known page count of the document, does nothing but show the error toast: the tree is the
  same, nothing is added or modified, and the modal stays open.
\<close>

theorem saveModal_rejects_invalid_commit:
  "trim (formTitle s) = []
   \<or> parseIntString (formPage s) = None
   \<or> (\<exists>p. parseIntString (formPage s) = Some p
          \<and> (p < 1 \<or> (\<exists>n. numPages s = Some n \<and> n \<noteq> 0 \<and> n < p))) \<Longrightarrow>
   saveModal s = showToast ''Please provide a valid title and page number'' Error s
   \<and> tree (saveModal s) = tree s
   \<and> reportsFailure s (saveModal s)
   \<and> modalOpen (saveModal s) = modalOpen s"
proof -
  assume h: "trim (formTitle s) = []
   \<or> parseIntString (formPage s) = None
   \<or> (\<exists>p. parseIntString (formPage s) = Some p
          \<and> (p < 1 \<or> (\<exists>n. numPages s = Some n \<and> n \<noteq> 0 \<and> n < p)))"
  then have "rejected (trim (formTitle s)) (parseIntString (formPage s)) (numPages s)"
    by (auto simp: rejected_def split: option.splits)
  then have a: "saveModal s = showToast ''Please provide a valid title and page number'' Error s"
    by (simp add: saveModal_def)
  have "tree (showToast m ty s) = tree s \<and> modalOpen (showToast m ty s) = modalOpen s" for m ty
    by (simp add: showToast_def)
  with a reportsFailure_showToast_Error show ?thesis by simp
qed

lemma trim_blank: "trim ''  '' = []"
  by code_simp

lemma parse_abc: "parseIntString ''abc'' = None"
  by code_simp

lemma parse_0: "parseIntString ''0'' = Some 0"
  by code_simp

lemma parse_11: "parseIntString ''11'' = Some 11"
  by code_simp

theorem saveModal_rejects_invalid_commit_witness:
  "tree (saveModal (sampleApp\<lparr>formTitle := ''  ''\<rparr>)) = tree sampleApp
   \<and> reportsFailure (sampleApp\<lparr>formTitle := ''  ''\<rparr>) (saveModal (sampleApp\<lparr>formTitle := ''  ''\<rparr>))
   \<and> tree (saveModal (sampleApp\<lparr>formPage := ''abc'', modalMode := Edit, editingId := Some 2\<rparr>)) = tree sampleApp
   \<and> tree (saveModal (sampleApp\<lparr>formPage := ''0'', modalMode := AddChild, modalParentId := Some 1\<rparr>)) = tree sampleApp
   \<and> tree (saveModal (sampleApp\<lparr>formPage := ''11''\<rparr>)) = tree sampleApp
   \<and> toasts (saveModal (sampleApp\<lparr>formPage := ''11''\<rparr>))
       = [(4, ''Please provide a valid title and page number'', Error)]"
proof -
  let ?s1 = "sampleApp\<lparr>formTitle := ''  ''\<rparr>"
  let ?s2 = "sampleApp\<lparr>formPage := ''abc'', modalMode := Edit, editingId := Some 2\<rparr>"
  let ?s3 = "sampleApp\<lparr>formPage := ''0'', modalMode := AddChild, modalParentId := Some 1\<rparr>"
  let ?s4 = "sampleApp\<lparr>formPage := ''11''\<rparr>"
  have a: "trim (formTitle ?s1) = []"
    by (simp add: trim_blank)
  have b: "parseIntString (formPage ?s2) = None"
    by (simp add: parse_abc)
  have c: "\<exists>p. parseIntString (formPage ?s3) = Some p
          \<and> (p < 1 \<or> (\<exists>n. numPages ?s3 = Some n \<and> n \<noteq> 0 \<and> n < p))"
    by (simp add: parse_0)
  have d: "\<exists>p. parseIntString (formPage ?s4) = Some p
          \<and> (p < 1 \<or> (\<exists>n. numPages ?s4 = Some n \<and> n \<noteq> 0 \<and> n < p))"
    by (simp add: parse_11 sampleApp_def)
  have r1: "tree (saveModal ?s1) = tree ?s1 \<and> reportsFailure ?s1 (saveModal ?s1)"
    using saveModal_rejects_invalid_commit [of ?s1] a by blast
  have r2: "tree (saveModal ?s2) = tree ?s2"
    using saveModal_rejects_invalid_commit [of ?s2] b by blast
  have r3: "tree (saveModal ?s3) = tree ?s3"
    using saveModal_rejects_invalid_commit [of ?s3] c by blast
  have r4: "tree (saveModal ?s4) = tree ?s4"
    using saveModal_rejects_invalid_commit [of ?s4] d by blast
  have "saveModal ?s4 = showToast ''Please provide a valid title and page number'' Error ?s4"
    using saveModal_rejects_invalid_commit [of ?s4] d by blast
  then have t: "toasts (saveModal ?s4) = [(4, ''Please provide a valid title and page number'', Error)]"
    by (simp add: showToast_def sampleApp_def)
  show ?thesis
    using r1 r2 r3 r4 t by simp
qed

lemma isDigit_not_white: "isDigit c \<Longrightarrow> \<not> isWhiteSpace c"
  by (auto simp: isDigit_def isWhiteSpace_def)

lemma isDigit_not_sign: "isDigit c \<Longrightarrow> c \<noteq> CHR ''+'' \<and> c \<noteq> CHR ''-''"
  by (auto simp: isDigit_def)

lemma reportsFailure_append_Info: "toasts s' = toasts s @ [(u, m, Info)] \<Longrightarrow> \<not> reportsFailure s s'"
  by (simp add: reportsFailure_def)

text \<open>
  \<^bold>\<open>C6\<close>, as stated, fails. Id 7 is not in the tree \<open>A(B, C)\<close>. Removing it, editing it and
  adding a child under it each show the toast of a success, of type \<open>info\<close>, and no toast
  of type \<open>error\<close>: \<open>findAndOperate\<close> returns \<open>false\<close> and no caller reads it.
\<close>

theorem lookup_miss_reports_no_failure:
  "7 \<notin> set (forestIds (tree sampleApp))
   \<and> toasts (removeNode 7 sampleApp) = [(4, ''Bookmark removed'', Info)]
   \<and> \<not> reportsFailure sampleApp (removeNode 7 sampleApp)
   \<and> toasts (saveModal (sampleApp\<lparr>modalMode := Edit, editingId := Some 7\<rparr>)) = [(4, ''Bookmark updated'', Info)]
   \<and> \<not> reportsFailure (sampleApp\<lparr>modalMode := Edit, editingId := Some 7\<rparr>)
         (saveModal (sampleApp\<lparr>modalMode := Edit, editingId := Some 7\<rparr>))
   \<and> toasts (saveModal (sampleApp\<lparr>modalMode := AddChild, modalParentId := Some 7\<rparr>))
       = [(5, ''Child bookmark added'', Info)]
   \<and> \<not> reportsFailure (sampleApp\<lparr>modalMode := AddChild, modalParentId := Some 7\<rparr>)
         (saveModal (sampleApp\<lparr>modalMode := AddChild, modalParentId := Some 7\<rparr>))"
proof -
  have t: "trim ''Intro'' = ''Intro''" by code_simp
  have p: "parseIntString ''3'' = Some 3" by code_simp
  have ok: "\<not> rejected ''Intro'' (Some 3) (Some 10)" by (simp add: rejected_def)
  have a: "7 \<notin> set (forestIds (tree sampleApp))"
    by (simp add: sampleApp_def)
  have b: "toasts (removeNode 7 sampleApp) = [(4, ''Bookmark removed'', Info)]"
    by (simp add: removeNode_def showToast_def sampleApp_def)
  have c: "toasts (saveModal (sampleApp\<lparr>modalMode := Edit, editingId := Some 7\<rparr>)) = [(4, ''Bookmark updated'', Info)]"
    using ok by (simp add: saveModal_def sampleApp_def t p showToast_def Let_def)
  have d: "toasts (saveModal (sampleApp\<lparr>modalMode := AddChild, modalParentId := Some 7\<rparr>))
       = [(5, ''Child bookmark added'', Info)]"
    using ok by (simp add: saveModal_def sampleApp_def t p showToast_def createNode_def Let_def)
  have e: "toasts sampleApp = []" by (simp add: sampleApp_def)
  show ?thesis
    using a b c d
      reportsFailure_append_Info [of "removeNode 7 sampleApp" sampleApp 4 "''Bookmark removed''"]
      reportsFailure_append_Info [of "saveModal (sampleApp\<lparr>modalMode := Edit, editingId := Some 7\<rparr>)"
         "sampleApp\<lparr>modalMode := Edit, editingId := Some 7\<rparr>" 4 "''Bookmark updated''"]
      reportsFailure_append_Info [of "saveModal (sampleApp\<lparr>modalMode := AddChild, modalParentId := Some 7\<rparr>)"
         "sampleApp\<lparr>modalMode := AddChild, modalParentId := Some 7\<rparr>" 5 "''Child bookmark added''"]
    by (simp add: e)
qed

text \<open>
  \<^bold>\<open>C6\<close>, amended. For an id that is not in the forest, \<open>findAndOperate\<close> returns \<open>false\<close>
  and leaves the array as it was, whatever the callback; \<open>removeNode\<close>, and a valid commit
  of the modal that adds a child under that id or edits it, leave the tree unchanged, and
  show the same toast as on a hit.
\<close>

theorem lookup_miss_leaves_forest_unchanged:
  "tid \<notin> set (forestIds (tree s)) \<Longrightarrow>
     findAndOperate (tree s) tid operate = (False, tree s)
     \<and> tree (removeNode tid s) = tree s
     \<and> toasts (removeNode tid s) = toasts s @ [(nextUuid s, ''Bookmark removed'', Info)]
     \<and> (\<not> rejected (trim (formTitle s)) (parseIntString (formPage s)) (numPages s)
          \<and> modalMode s = AddChild \<and> modalParentId s = Some tid \<longrightarrow>
            tree (saveModal s) = tree s
            \<and> toasts (saveModal s) = toasts s @ [(nextUuid s + 1, ''Child bookmark added'', Info)])
     \<and> (\<not> rejected (trim (formTitle s)) (parseIntString (formPage s)) (numPages s)
          \<and> modalMode s = Edit \<and> editingId s = Some tid \<longrightarrow>
            tree (saveModal s) = tree s
            \<and> toasts (saveModal s) = toasts s @ [(nextUuid s, ''Bookmark updated'', Info)])"
proof -
  assume miss: "tid \<notin> set (forestIds (tree s))"
  have f: "findAndOperate (tree s) tid operate = (False, tree s)" for operate
    using miss by (rule findAndOperate_miss)
  have r: "tree (removeNode tid s) = tree s
     \<and> toasts (removeNode tid s) = toasts s @ [(nextUuid s, ''Bookmark removed'', Info)]"
    using findIndex_miss [OF miss] by (simp add: removeNode_def showToast_def f)
  have c: "\<not> rejected (trim (formTitle s)) (parseIntString (formPage s)) (numPages s)
          \<and> modalMode s = AddChild \<and> modalParentId s = Some tid \<longrightarrow>
            tree (saveModal s) = tree s
            \<and> toasts (saveModal s) = toasts s @ [(nextUuid s + 1, ''Child bookmark added'', Info)]"
    by (simp add: saveModal_def Let_def createNode_def showToast_def f)
  have e: "\<not> rejected (trim (formTitle s)) (parseIntString (formPage s)) (numPages s)
          \<and> modalMode s = Edit \<and> editingId s = Some tid \<longrightarrow>
            tree (saveModal s) = tree s
            \<and> toasts (saveModal s) = toasts s @ [(nextUuid s, ''Bookmark updated'', Info)]"
    by (simp add: saveModal_def Let_def showToast_def f)
  show ?thesis using f r c e by blast
qed

theorem lookup_miss_leaves_forest_unchanged_witness:
  "7 \<notin> set (forestIds (tree sampleApp))
   \<and> findAndOperate (tree sampleApp) 7 splice1 = (False, tree sampleApp)
   \<and> tree (removeNode 7 sampleApp) = tree sampleApp
   \<and> tree (saveModal (sampleApp\<lparr>modalMode := AddChild, modalParentId := Some 7\<rparr>)) = tree sampleApp
   \<and> tree (saveModal (sampleApp\<lparr>modalMode := Edit, editingId := Some 7\<rparr>)) = tree sampleApp"
proof -
  let ?c = "sampleApp\<lparr>modalMode := AddChild, modalParentId := Some 7\<rparr>"
  let ?e = "sampleApp\<lparr>modalMode := Edit, editingId := Some 7\<rparr>"
  have t: "trim ''Intro'' = ''Intro''" by code_simp
  have p: "parseIntString ''3'' = Some 3" by code_simp
  have ok: "\<not> rejected ''Intro'' (Some 3) (Some 10)" by (simp add: rejected_def)
  have a: "7 \<notin> set (forestIds (tree sampleApp))"
    by (simp add: sampleApp_def)
  have ac: "7 \<notin> set (forestIds (tree ?c))" and ae: "7 \<notin> set (forestIds (tree ?e))"
    using a by simp_all
  have okc: "\<not> rejected (trim (formTitle ?c)) (parseIntString (formPage ?c)) (numPages ?c)
      \<and> modalMode ?c = AddChild \<and> modalParentId ?c = Some 7"
    using ok by (simp add: sampleApp_def t p)
  have oke: "\<not> rejected (trim (formTitle ?e)) (parseIntString (formPage ?e)) (numPages ?e)
      \<and> modalMode ?e = Edit \<and> editingId ?e = Some 7"
    using ok by (simp add: sampleApp_def t p)
  have r1: "findAndOperate (tree sampleApp) 7 splice1 = (False, tree sampleApp)
      \<and> tree (removeNode 7 sampleApp) = tree sampleApp"
    using lookup_miss_leaves_forest_unchanged [OF a, of splice1] by blast
  have r2: "tree (saveModal ?c) = tree ?c"
    using lookup_miss_leaves_forest_unchanged [OF ac, of splice1] okc by blast
  have r3: "tree (saveModal ?e) = tree ?e"
    using lookup_miss_leaves_forest_unchanged [OF ae, of splice1] oke by blast
  show ?thesis using a r1 r2 r3 by simp
qed

lemma detach_miss: "tid \<notin> set (forestIds ns) \<Longrightarrow> detach tid ns = ns"
  by (induction tid ns rule: detach.induct) auto

lemma detach_append: "detach tid (xs @ ys) = detach tid xs @ detach tid ys"
  by (induction tid xs rule: detach.induct) auto

lemma detach_Cons:
  "detach tid (n # ns) =
     (if id' n = tid then detach tid ns else setChildren n (detach tid (children' n)) # detach tid ns)"
  by (cases n) (simp add: setChildren_def)

lemma distinct_forestIds_nth:
  assumes "distinct (forestIds nodes)" "i < length nodes"
  shows "distinct (forestIds (children' (nodes ! i)))"
    and "id' (nodes ! i) \<notin> set (forestIds (take i nodes))"
    and "id' (nodes ! i) \<notin> set (forestIds (children' (nodes ! i)))"
    and "id' (nodes ! i) \<notin> set (forestIds (drop (Suc i) nodes))"
    and "set (forestIds (children' (nodes ! i))) \<inter> set (forestIds (take i nodes)) = {}"
    and "set (forestIds (children' (nodes ! i))) \<inter> set (forestIds (drop (Suc i) nodes)) = {}"
  using assms(1) unfolding forestIds_nth [OF assms(2)] by auto

lemma detach_at_root:
  assumes "distinct (forestIds nodes)" "i < length nodes" "id' (nodes ! i) = tid"
  shows "detach tid nodes = splice1 nodes i"
proof -
  have a: "tid \<notin> set (forestIds (take i nodes))" and b: "tid \<notin> set (forestIds (drop (Suc i) nodes))"
    using distinct_forestIds_nth(2,4) [OF assms(1,2)] assms(3) by auto
  have "detach tid nodes = detach tid (take i nodes @ nodes ! i # drop (Suc i) nodes)"
    using id_take_nth_drop [OF assms(2)] by simp
  also have "\<dots> = take i nodes @ drop (Suc i) nodes"
    using assms(3) by (simp add: detach_append detach_Cons detach_miss [OF a] detach_miss [OF b])
  finally show ?thesis by (simp add: splice1_def)
qed

lemma detach_below:
  assumes "distinct (forestIds nodes)" "i < length nodes" "id' (nodes ! i) \<noteq> tid"
    "tid \<in> set (forestIds (children' (nodes ! i)))"
  shows "detach tid nodes = nodes[i := setChildren (nodes ! i) (detach tid (children' (nodes ! i)))]"
proof -
  have a: "tid \<notin> set (forestIds (take i nodes))" and b: "tid \<notin> set (forestIds (drop (Suc i) nodes))"
    using distinct_forestIds_nth(5,6) [OF assms(1,2)] assms(4) by auto
  have "detach tid nodes = detach tid (take i nodes @ nodes ! i # drop (Suc i) nodes)"
    using id_take_nth_drop [OF assms(2)] by simp
  also have "\<dots> = take i nodes @ setChildren (nodes ! i) (detach tid (children' (nodes ! i))) # drop (Suc i) nodes"
    using assms(3) by (simp add: detach_append detach_Cons detach_miss [OF a] detach_miss [OF b])
  finally show ?thesis by (simp add: upd_conv_take_nth_drop [OF assms(2)])
qed

lemma forestIds_take_Suc:
  "i < length nodes \<Longrightarrow>
     forestIds (take (Suc i) nodes) = forestIds (take i nodes) @ id' (nodes ! i) # forestIds (children' (nodes ! i))"
  by (simp add: take_Suc_conv_app_nth forestIds_append forestIds_single)

lemma findAndOperate_from_splice1:
  "distinct (forestIds nodes) \<Longrightarrow> tid \<notin> set (forestIds (take i nodes)) \<Longrightarrow>
   tid \<in> set (forestIds nodes) \<Longrightarrow> operate = splice1 \<Longrightarrow>
     findAndOperate_from i nodes tid operate = (True, detach tid nodes)"
proof (induction i nodes tid operate rule: findAndOperate_from.induct)
  case (1 i nodes tid operate)
  have len: "i < length nodes"
  proof (rule ccontr)
    assume "\<not> i < length nodes"
    then have "take i nodes = nodes" by simp
    with 1(5,6) show False by simp
  qed
  show ?case
  proof (cases "id' (nodes ! i) = tid")
    case True
    then show ?thesis
      using len detach_at_root [OF 1(4) len True] 1(7)
      by (subst findAndOperate_from.simps) simp
  next
    case False
    note ne = False
    show ?thesis
    proof (cases "tid \<in> set (forestIds (children' (nodes ! i)))")
      case True
      then have kids: "children' (nodes ! i) \<noteq> []" by auto
      have inner: "findAndOperate_from 0 (children' (nodes ! i)) tid operate
          = (True, detach tid (children' (nodes ! i)))"
        using 1(1) [OF len ne kids] distinct_forestIds_nth(1) [OF 1(4) len] True 1(7) by simp
      show ?thesis
        using len ne kids inner detach_below [OF 1(4) len ne True]
        by (subst findAndOperate_from.simps) simp
    next
      case False
      have tk: "tid \<notin> set (forestIds (take (Suc i) nodes))"
        using 1(5) ne False by (simp add: forestIds_take_Suc [OF len])
      show ?thesis
      proof (cases "children' (nodes ! i) = []")
        case True
        have nk: "\<not> children' (nodes ! i) \<noteq> []" using True by simp
        have "findAndOperate_from (i + 1) nodes tid operate = (True, detach tid nodes)"
          using 1(3) [OF len ne nk 1(4)] tk 1(6,7) by simp
        then show ?thesis
          using len ne True by (subst findAndOperate_from.simps) simp
      next
        case kids: False
        have inner: "findAndOperate_from 0 (children' (nodes ! i)) tid operate
            = (False, children' (nodes ! i))"
          using False by (rule findAndOperate_from_miss)
        have same: "nodes[i := setChildren (nodes ! i) (children' (nodes ! i))] = nodes"
          by (simp add: setChildren_same)
        have "findAndOperate_from (i + 1) (nodes[i := setChildren (nodes ! i) (children' (nodes ! i))]) tid operate
            = (True, detach tid (nodes[i := setChildren (nodes ! i) (children' (nodes ! i))]))"
        proof (rule 1(2) [OF len ne kids inner [symmetric]])
          show "\<not> False" by simp
          show "distinct (forestIds (nodes[i := setChildren (nodes ! i) (children' (nodes ! i))]))"
            using 1(4) by (simp only: same)
          show "tid \<notin> set (forestIds (take (i + 1) (nodes[i := setChildren (nodes ! i) (children' (nodes ! i))])))"
            using tk by (simp only: same) simp
          show "tid \<in> set (forestIds (nodes[i := setChildren (nodes ! i) (children' (nodes ! i))]))"
            using 1(6) by (simp only: same)
          show "operate = splice1" by (rule 1(7))
        qed
        then show ?thesis
          using len ne kids inner by (subst findAndOperate_from.simps) (simp add: setChildren_same)
      qed
    qed
  qed
qed

lemma removeNode_detach:
  assumes "distinct (forestIds (tree s))"
  shows "tree (removeNode tid s) = detach tid (tree s)"
proof (cases "findIndex (\<lambda>n. id' n = tid) (tree s)")
  case (Some idx)
  from findIndex_Some [OF Some] have "idx < length (tree s)" "id' (tree s ! idx) = tid"
    by auto
  from detach_at_root [OF assms this] Some show ?thesis
    by (simp add: removeNode_def showToast_def)
next
  case None
  show ?thesis
  proof (cases "tid \<in> set (forestIds (tree s))")
    case True
    have "findAndOperate (tree s) tid splice1 = (True, detach tid (tree s))"
      unfolding findAndOperate_def
      by (rule findAndOperate_from_splice1 [OF assms _ True refl]) simp
    with None show ?thesis by (simp add: removeNode_def showToast_def)
  next
    case False
    from findAndOperate_miss [OF False] detach_miss [OF False] None show ?thesis
      by (simp add: removeNode_def showToast_def)
  qed
qed


lemma findNode_None_iff: "findNode f tid = None \<longleftrightarrow> tid \<notin> set (forestIds f)"
  by (induction f tid rule: findNode.induct) (auto split: option.splits)

lemma findNode_Some:
  "findNode f tid = Some n \<Longrightarrow> id' n = tid \<and> set (forestIds [n]) \<subseteq> set (forestIds f)"
proof (induction f tid rule: findNode.induct)
  case (1 tid)
  then show ?case by simp
next
  case (2 i t p cs ns tid)
  show ?case
  proof (cases "i = tid")
    case True
    with 2(3) show ?thesis by auto
  next
    case False
    show ?thesis
    proof (cases "findNode cs tid")
      case None
      with 2(2) [OF False None] 2(3) False show ?thesis by auto
    next
      case (Some m)
      with 2(1) [OF False] 2(3) False show ?thesis by auto
    qed
  qed
qed

lemma filter_notin_disjoint: "set xs \<inter> A = {} \<Longrightarrow> filter (\<lambda>i. i \<notin> A) xs = xs"
  by (induction xs) auto

lemma filter_notin_subset: "set xs \<subseteq> A \<Longrightarrow> filter (\<lambda>i. i \<notin> A) xs = []"
  by (induction xs) auto

lemma forestIds_detach:
  "distinct (forestIds f) \<Longrightarrow> findNode f tid = Some n \<Longrightarrow>
     forestIds (detach tid f) = filter (\<lambda>i. i \<notin> set (forestIds [n])) (forestIds f)"
proof (induction f tid rule: findNode.induct)
  case (1 tid)
  then show ?case by simp
next
  case (2 i t p cs ns tid)
  from 2(3) have d: "distinct (forestIds cs)" "distinct (forestIds ns)" "i \<notin> set (forestIds cs)"
    "i \<notin> set (forestIds ns)" "set (forestIds cs) \<inter> set (forestIds ns) = {}"
    by auto
  show ?case
  proof (cases "i = tid")
    case True
    with 2(4) have n: "n = TNode i t p cs" by simp
    have a: "detach tid ns = ns"
      using d(4) True by (simp add: detach_miss)
    have b: "filter (\<lambda>j. j \<notin> set (forestIds [n])) (forestIds cs) = []"
      by (rule filter_notin_subset) (auto simp: n)
    have c: "filter (\<lambda>j. j \<notin> set (forestIds [n])) (forestIds ns) = forestIds ns"
      by (rule filter_notin_disjoint) (use d in \<open>auto simp: n\<close>)
    show ?thesis using True a b c by (simp add: n)
  next
    case False
    show ?thesis
    proof (cases "findNode cs tid")
      case (Some m)
      with 2(4) False have m: "m = n" by simp
      from findNode_Some [OF Some] m have sub: "id' n = tid" "set (forestIds [n]) \<subseteq> set (forestIds cs)"
        by auto
      have "tid \<in> set (forestIds cs)"
        using Some findNode_None_iff [of cs tid] by auto
      then have "tid \<notin> set (forestIds ns)"
        using d(5) by auto
      then have a: "detach tid ns = ns"
        by (rule detach_miss)
      have ih: "forestIds (detach tid cs) = filter (\<lambda>j. j \<notin> set (forestIds [n])) (forestIds cs)"
        using 2(1) [OF False d(1)] Some m by simp
      have c: "filter (\<lambda>j. j \<notin> set (forestIds [n])) (forestIds ns) = forestIds ns"
        by (rule filter_notin_disjoint) (use d sub in auto)
      have i: "i \<notin> set (forestIds [n])" using sub d(3) by auto
      show ?thesis using False a ih c i by simp
    next
      case None
      with 2(4) False have s: "findNode ns tid = Some n" by simp
      from findNode_Some [OF s] have sub: "id' n = tid" "set (forestIds [n]) \<subseteq> set (forestIds ns)"
        by auto
      have a: "detach tid cs = cs"
        using None findNode_None_iff [of cs tid] by (simp add: detach_miss)
      have ih: "forestIds (detach tid ns) = filter (\<lambda>j. j \<notin> set (forestIds [n])) (forestIds ns)"
        using 2(2) [OF False None d(2) s] .
      have c: "filter (\<lambda>j. j \<notin> set (forestIds [n])) (forestIds cs) = forestIds cs"
        by (rule filter_notin_disjoint) (use d sub in auto)
      have i: "i \<notin> set (forestIds [n])" using sub d(4) by auto
      show ?thesis using False a ih c i by simp
    qed
  qed
qed

lemma removeNode_root_example:
  "tree (removeNode 1 sampleApp) = []"
  by (simp add: removeNode_def showToast_def sampleApp_def splice1_def)

lemma removeNode_nested_example:
  "tree (removeNode 2 sampleApp) = [TNode 1 ''A'' 1 [TNode 3 ''C'' 3 []]]"
  by code_simp


text \<open>
  \<^bold>\<open>C7.\<close> In a forest of distinct ids, removing the id of a node \<open>n\<close> of the forest detaches
  \<open>n\<close> with its whole subtree, wherever \<open>n\<close> stands: the tree is the forest with that node
  cut out, the ids left are those of the forest without the ids of \<open>n\<close> and of its
  descendants, in their order, so no descendant stays or moves up. In \<open>A(B, C)\<close>, removing
  B leaves \<open>A(C)\<close> and removing A leaves the empty forest.
\<close>

theorem removeNode_detaches_subtree:
  "distinct (forestIds (tree s)) \<and> findNode (tree s) tid = Some n \<Longrightarrow>
     tree (removeNode tid s) = detach tid (tree s)
     \<and> forestIds (tree (removeNode tid s))
         = filter (\<lambda>i. i \<notin> set (forestIds [n])) (forestIds (tree s))
     \<and> set (forestIds (tree (removeNode tid s))) \<inter> set (forestIds [n]) = {}
     \<and> tree (removeNode 2 sampleApp) = [TNode 1 ''A'' 1 [TNode 3 ''C'' 3 []]]
     \<and> tree (removeNode 1 sampleApp) = []"
proof -
  assume h: "distinct (forestIds (tree s)) \<and> findNode (tree s) tid = Some n"
  then have a: "tree (removeNode tid s) = detach tid (tree s)"
    by (simp add: removeNode_detach)
  have b: "forestIds (detach tid (tree s)) = filter (\<lambda>i. i \<notin> set (forestIds [n])) (forestIds (tree s))"
    using h by (simp add: forestIds_detach)
  have c: "set (filter (\<lambda>i. i \<notin> set (forestIds [n])) (forestIds (tree s))) \<inter> set (forestIds [n]) = {}"
    by auto
  show ?thesis
    using a b c removeNode_nested_example removeNode_root_example by simp
qed

theorem removeNode_detaches_subtree_witness:
  "distinct (forestIds (tree sampleApp))
   \<and> findNode (tree sampleApp) 2 = Some (TNode 2 ''B'' 2 [])
   \<and> findNode (tree sampleApp) 1 = Some (TNode 1 ''A'' 1 [TNode 2 ''B'' 2 [], TNode 3 ''C'' 3 []])
   \<and> tree (removeNode 2 sampleApp) = detach 2 (tree sampleApp)
   \<and> forestIds (tree (removeNode 2 sampleApp)) = [1, 3]
   \<and> forestIds (tree (removeNode 1 sampleApp)) = []"
proof -
  have d: "distinct (forestIds (tree sampleApp))"
    by (simp add: sampleApp_def)
  have f2: "findNode (tree sampleApp) 2 = Some (TNode 2 ''B'' 2 [])"
    by (simp add: sampleApp_def)
  have f1: "findNode (tree sampleApp) 1 = Some (TNode 1 ''A'' 1 [TNode 2 ''B'' 2 [], TNode 3 ''C'' 3 []])"
    by (simp add: sampleApp_def)
  have ids: "forestIds (tree sampleApp) = [1, 2, 3]"
    by (simp add: sampleApp_def)
  have r2: "tree (removeNode 2 sampleApp) = detach 2 (tree sampleApp)"
    using removeNode_detaches_subtree [of sampleApp 2 "TNode 2 ''B'' 2 []"] d f2 by blast
  have "forestIds (tree (removeNode 2 sampleApp))
          = filter (\<lambda>i. i \<notin> set (forestIds [TNode 2 ''B'' 2 []])) (forestIds (tree sampleApp))"
    using removeNode_detaches_subtree [of sampleApp 2 "TNode 2 ''B'' 2 []"] d f2 by blast
  then have i2: "forestIds (tree (removeNode 2 sampleApp)) = [1, 3]"
    by (simp add: ids)
  have "forestIds (tree (removeNode 1 sampleApp))
          = filter (\<lambda>i. i \<notin> set (forestIds [TNode 1 ''A'' 1 [TNode 2 ''B'' 2 [], TNode 3 ''C'' 3 []]]))
              (forestIds (tree sampleApp))"
    using removeNode_detaches_subtree
      [of sampleApp 1 "TNode 1 ''A'' 1 [TNode 2 ''B'' 2 [], TNode 3 ''C'' 3 []]"] d f1 by blast
  then have i1: "forestIds (tree (removeNode 1 sampleApp)) = []"
    by (simp add: ids)
  show ?thesis
    using d f1 f2 r2 i2 i1 by blast
qed












subsection \<open>A commit whose page field starts with an integer\<close>

text \<open>
  \<open>findAndOperate\<close>, called with an operation that replaces the element at the index by a
  function \<open>f\<close> of it, says whether the id occurs and applies \<open>f\<close> to the first node in
  pre-order that has the id. Both \<open>setTitlePage\<close> and \<open>pushChild\<close> are such operations.
\<close>

lemma updateFirst_miss: "tid \<notin> set (forestIds ns) \<Longrightarrow> updateFirst f tid ns = ns"
  by (induction f tid ns rule: updateFirst.induct) auto

lemma updateFirst_append_miss:
  "tid \<notin> set (forestIds xs) \<Longrightarrow> updateFirst f tid (xs @ ys) = xs @ updateFirst f tid ys"
  by (induction f tid xs rule: updateFirst.induct) auto

lemma updateFirst_Cons:
  "updateFirst f tid (n # ns) =
     (if id' n = tid then f n # ns
      else if tid \<in> set (forestIds (children' n))
        then setChildren n (updateFirst f tid (children' n)) # ns
      else n # updateFirst f tid ns)"
  by (cases n) (simp add: setChildren_def)

lemma updateFirst_at:
  assumes "i < length nodes" "tid \<notin> set (forestIds (take i nodes))"
  shows "updateFirst f tid nodes = take i nodes @ updateFirst f tid (nodes ! i # drop (Suc i) nodes)"
proof -
  have "updateFirst f tid nodes = updateFirst f tid (take i nodes @ nodes ! i # drop (Suc i) nodes)"
    using id_take_nth_drop [OF assms(1)] by simp
  then show ?thesis
    by (simp only: updateFirst_append_miss [OF assms(2)])
qed

lemma findAndOperate_from_pointwise:
  "(\<And>arr k. operate arr k = arr[k := f (arr ! k)]) \<Longrightarrow> tid \<notin> set (forestIds (take i nodes)) \<Longrightarrow>
     findAndOperate_from i nodes tid operate = (tid \<in> set (forestIds nodes), updateFirst f tid nodes)"
proof (induction i nodes tid operate rule: findAndOperate_from.induct)
  case (1 i nodes tid operate)
  note op = 1(4)
  show ?case
  proof (cases "i < length nodes")
    case False
    then have "take i nodes = nodes" by simp
    with 1(5) have miss: "tid \<notin> set (forestIds nodes)" by simp
    show ?thesis
      using False miss by (subst findAndOperate_from.simps) (simp add: updateFirst_miss)
  next
    case len: True
    note ids = forestIds_nth [OF len]
    note upd = updateFirst_at [OF len 1(5), of f]
    show ?thesis
    proof (cases "id' (nodes ! i) = tid")
      case True
      have "updateFirst f tid nodes = nodes[i := f (nodes ! i)]"
        using upd True by (simp add: updateFirst_Cons upd_conv_take_nth_drop [OF len])
      then show ?thesis
        using len True ids op by (subst findAndOperate_from.simps) simp
    next
      case ne: False
      show ?thesis
      proof (cases "tid \<in> set (forestIds (children' (nodes ! i)))")
        case True
        then have kids: "children' (nodes ! i) \<noteq> []" by auto
        have inner: "findAndOperate_from 0 (children' (nodes ! i)) tid operate
            = (True, updateFirst f tid (children' (nodes ! i)))"
          using 1(1) [OF len ne kids op] True by simp
        have "updateFirst f tid nodes
            = nodes[i := setChildren (nodes ! i) (updateFirst f tid (children' (nodes ! i)))]"
          using upd ne True by (simp add: updateFirst_Cons upd_conv_take_nth_drop [OF len])
        then show ?thesis
          using len ne kids inner ids True by (subst findAndOperate_from.simps) simp
      next
        case False
        have tk: "tid \<notin> set (forestIds (take (Suc i) nodes))"
          using 1(5) ne False by (simp add: forestIds_take_Suc [OF len])
        show ?thesis
        proof (cases "children' (nodes ! i) = []")
          case True
          have nk: "\<not> children' (nodes ! i) \<noteq> []" using True by simp
          have "findAndOperate_from (i + 1) nodes tid operate
              = (tid \<in> set (forestIds nodes), updateFirst f tid nodes)"
            using 1(3) [OF len ne nk op] tk by simp
          then show ?thesis
            using len ne True by (subst findAndOperate_from.simps) simp
        next
          case kids: False
          have inner: "findAndOperate_from 0 (children' (nodes ! i)) tid operate
              = (False, children' (nodes ! i))"
            using False by (rule findAndOperate_from_miss)
          have same: "nodes[i := setChildren (nodes ! i) (children' (nodes ! i))] = nodes"
            by (simp add: setChildren_same)
          have "findAndOperate_from (i + 1) (nodes[i := setChildren (nodes ! i) (children' (nodes ! i))]) tid operate
              = (tid \<in> set (forestIds (nodes[i := setChildren (nodes ! i) (children' (nodes ! i))])),
                 updateFirst f tid (nodes[i := setChildren (nodes ! i) (children' (nodes ! i))]))"
          proof (rule 1(2) [OF len ne kids inner [symmetric]])
            show "\<not> False" by simp
            show "\<And>arr k. operate arr k = arr[k := f (arr ! k)]" by (rule op)
            show "tid \<notin> set (forestIds (take (i + 1) (nodes[i := setChildren (nodes ! i) (children' (nodes ! i))])))"
              using tk by (simp only: same) simp
          qed
          then show ?thesis
            using len ne kids inner by (subst findAndOperate_from.simps) (simp add: setChildren_same)
        qed
      qed
    qed
  qed
qed

lemma findAndOperate_pointwise:
  "(\<And>arr k. operate arr k = arr[k := f (arr ! k)]) \<Longrightarrow>
     findAndOperate nodes tid operate = (tid \<in> set (forestIds nodes), updateFirst f tid nodes)"
  unfolding findAndOperate_def by (rule findAndOperate_from_pointwise) simp_all

lemma findNode_updateFirst:
  "(\<And>m. id' (f m) = id' m) \<Longrightarrow> findNode forest tid = Some n \<Longrightarrow>
     findNode (updateFirst f tid forest) tid = Some (f n)"
proof (induction forest tid rule: findNode.induct)
  case (1 tid)
  then show ?case by simp
next
  case (2 i t p cs ns tid)
  show ?case
  proof (cases "i = tid")
    case True
    with 2(4) have n: "n = TNode i t p cs" by simp
    obtain j tt pp kk where fn: "f (TNode i t p cs) = TNode j tt pp kk"
      by (cases "f (TNode i t p cs)") auto
    with 2(3) [of "TNode i t p cs"] have "j = i" by simp
    with True fn n show ?thesis by simp
  next
    case False
    show ?thesis
    proof (cases "findNode cs tid")
      case (Some m)
      with 2(4) False have m: "m = n" by simp
      have "tid \<in> set (forestIds cs)"
        using Some findNode_None_iff [of cs tid] by auto
      then show ?thesis
        using False 2(1) [OF False 2(3)] Some m by simp
    next
      case None
      then have miss: "tid \<notin> set (forestIds cs)"
        by (simp add: findNode_None_iff)
      from None 2(4) False have "findNode ns tid = Some n" by simp
      from 2(2) [OF False None 2(3) this] show ?thesis
        using False miss None by simp
    qed
  qed
qed


lemma parseIntString_leading_digits:
  assumes "list_all isWhiteSpace ws" "sg = [] \<or> sg = ''+''" "ds \<noteq> []" "list_all isDigit ds"
    "rest = [] \<or> \<not> isDigit (hd rest)"
  shows "parseIntString (ws @ sg @ ds @ rest) = Some (int (digitsVal 10 ds))"
proof -
  obtain d ds' where ds: "ds = d # ds'" using assms(3) by (cases ds) auto
  with assms(4) have d: "isDigit d" by simp
  have hd_sg: "\<not> isWhiteSpace (hd (sg @ ds @ rest))"
    using assms(2) isDigit_not_white [OF d] by (auto simp: ds isWhiteSpace_def)
  have ne: "sg @ ds @ rest \<noteq> []" using assms(3) by simp
  have "dropWhile isWhiteSpace (ws @ sg @ ds @ rest) = dropWhile isWhiteSpace (sg @ ds @ rest)"
    using assms(1) by (simp add: dropWhile_append2 list_all_iff)
  also have "\<dots> = sg @ ds @ rest"
    using hd_sg ne by (cases "sg @ ds @ rest") auto
  finally have t: "trimStart (ws @ sg @ ds @ rest) = sg @ ds @ rest"
    by (simp add: trimStart_def)
  have "takeWhile isDigit (ds @ rest) = ds @ takeWhile isDigit rest"
    using assms(4) by (simp add: takeWhile_append2 list_all_iff)
  also have "takeWhile isDigit rest = []"
    using assms(5) by (cases rest) auto
  finally have z: "takeWhile isDigit (ds @ rest) = ds" by simp
  show ?thesis
    using assms(2)
  proof
    assume sg: "sg = []"
    have t0: "trimStart (ws @ ds @ rest) = ds @ rest" using t by (simp add: sg)
    have "parseIntString (ws @ ds @ rest) = Some (int (digitsVal 10 ds))"
      using isDigit_not_sign [OF d] z assms(3)
      by (simp add: parseIntString_def t0 Let_def) (simp add: ds)
    then show ?thesis by (simp add: sg)
  next
    assume sg: "sg = ''+''"
    have t1: "trimStart (ws @ CHR ''+'' # ds @ rest) = CHR ''+'' # ds @ rest" using t by (simp add: sg)
    have "parseIntString (ws @ CHR ''+'' # ds @ rest) = Some (int (digitsVal 10 ds))"
      using z assms(3) by (simp add: parseIntString_def t1 Let_def)
    then show ?thesis by (simp add: sg)
  qed
qed

lemma setTitlePage_pointwise:
  "setTitlePage t p arr k = arr[k := (\<lambda>m. TNode (id' m) t p (children' m)) (arr ! k)]"
  by (simp add: setTitlePage_def)

lemma pushChild_pointwise:
  "pushChild node arr k = arr[k := (\<lambda>m. TNode (id' m) (title' m) (page' m) (children' m @ [node])) (arr ! k)]"
  by (simp add: pushChild_def setChildren_def)

lemma digitsVal_3: "digitsVal 10 ''3'' = 3"
  by code_simp

text \<open>
  \<^bold>\<open>C10.\<close> A page field made of white space, an optional plus sign, decimal digits and then
  anything that is no digit is read as the integer \<open>p\<close> of its digits (below \<open>2 ^ 53\<close>, where
  \<open>parseInt\<close> is exact). When \<open>p\<close> is at least 1 and within the page count and the trimmed
  title \<open>t\<close> is not empty, the commit is not rejected and is the commit of the digits alone.
  What it commits, in each mode:

  \<^item> add root: the forest gets a new last root with a fresh id, title \<open>t\<close>, page \<open>p\<close> and no
    children;
  \<^item> add child: the first node in pre-order with the parent's id gets that new node as its
    last child, and keeps its own id, title, page and earlier children; every other node
    stays;
  \<^item> edit: the first node in pre-order with the edited id gets title \<open>t\<close> and page \<open>p\<close>, and
    keeps its id and children; every other node stays.

  Each mode shows its own toast of type \<open>info\<close>. Both \<open>3.9\<close> and \<open>3abc\<close> commit page 3.
\<close>

theorem saveModal_commits_leading_integer:
  "list_all isWhiteSpace ws \<and> (sg = [] \<or> sg = ''+'') \<and> ds \<noteq> [] \<and> list_all isDigit ds
   \<and> (rest = [] \<or> \<not> isDigit (hd rest)) \<and> formPage s = ws @ sg @ ds @ rest
   \<and> p = int (digitsVal 10 ds) \<and> 1 \<le> p \<and> p < 2 ^ 53 \<and> t = trim (formTitle s) \<and> t \<noteq> []
   \<and> (numPages s = None \<or> (\<exists>n. numPages s = Some n \<and> p \<le> n)) \<Longrightarrow>
   parseIntString (formPage s) = Some p
   \<and> \<not> rejected t (parseIntString (formPage s)) (numPages s)
   \<and> saveModal s = (saveModal (s\<lparr>formPage := ds\<rparr>))\<lparr>formPage := formPage s\<rparr>
   \<and> (modalMode s = AddRoot \<longrightarrow>
        tree (saveModal s) = tree s @ [TNode (nextUuid s) t p []]
        \<and> toasts (saveModal s) = toasts s @ [(nextUuid s + 1, ''Bookmark added'', Info)])
   \<and> (modalMode s = AddChild \<and> modalParentId s = Some par \<longrightarrow>
        tree (saveModal s)
          = updateFirst (\<lambda>m. TNode (id' m) (title' m) (page' m) (children' m @ [TNode (nextUuid s) t p []]))
              par (tree s)
        \<and> toasts (saveModal s) = toasts s @ [(nextUuid s + 1, ''Child bookmark added'', Info)]
        \<and> (findNode (tree s) par = Some n \<longrightarrow>
             findNode (tree (saveModal s)) par
               = Some (TNode par (title' n) (page' n) (children' n @ [TNode (nextUuid s) t p []]))))
   \<and> (modalMode s = Edit \<and> editingId s = Some e \<longrightarrow>
        tree (saveModal s) = updateFirst (\<lambda>m. TNode (id' m) t p (children' m)) e (tree s)
        \<and> toasts (saveModal s) = toasts s @ [(nextUuid s, ''Bookmark updated'', Info)]
        \<and> (findNode (tree s) e = Some n \<longrightarrow>
             findNode (tree (saveModal s)) e = Some (TNode e t p (children' n))))"
proof -
  assume h: "list_all isWhiteSpace ws \<and> (sg = [] \<or> sg = ''+'') \<and> ds \<noteq> [] \<and> list_all isDigit ds
   \<and> (rest = [] \<or> \<not> isDigit (hd rest)) \<and> formPage s = ws @ sg @ ds @ rest
   \<and> p = int (digitsVal 10 ds) \<and> 1 \<le> p \<and> p < 2 ^ 53 \<and> t = trim (formTitle s) \<and> t \<noteq> []
   \<and> (numPages s = None \<or> (\<exists>n. numPages s = Some n \<and> p \<le> n))"
  let ?new = "TNode (nextUuid s) t p []"
  let ?push = "\<lambda>m. TNode (id' m) (title' m) (page' m) (children' m @ [?new])"
  let ?set = "\<lambda>m. TNode (id' m) t p (children' m)"
  have p: "parseIntString (formPage s) = Some p"
    using h parseIntString_leading_digits [of ws sg ds rest] by simp
  have p': "parseIntString ds = Some p"
    using h parseIntString_leading_digits [of "[]" "[]" ds "[]"] by simp
  have ok: "\<not> rejected t (Some p) (numPages s)"
    using h by (auto simp: rejected_def)
  have t: "trim (formTitle s) = t" using h by simp
  have same: "saveModal s = (saveModal (s\<lparr>formPage := ds\<rparr>))\<lparr>formPage := formPage s\<rparr>"
    using ok by (auto simp: saveModal_def p p' t Let_def showToast_def createNode_def)
  have root: "modalMode s = AddRoot \<longrightarrow>
        tree (saveModal s) = tree s @ [?new]
        \<and> toasts (saveModal s) = toasts s @ [(nextUuid s + 1, ''Bookmark added'', Info)]"
    using ok by (simp add: saveModal_def p t Let_def showToast_def createNode_def)
  have child: "modalMode s = AddChild \<and> modalParentId s = Some par \<longrightarrow>
        tree (saveModal s) = updateFirst ?push par (tree s)
        \<and> toasts (saveModal s) = toasts s @ [(nextUuid s + 1, ''Child bookmark added'', Info)]
        \<and> (findNode (tree s) par = Some n \<longrightarrow>
             findNode (tree (saveModal s)) par
               = Some (TNode par (title' n) (page' n) (children' n @ [?new])))"
  proof
    assume m: "modalMode s = AddChild \<and> modalParentId s = Some par"
    have op: "snd (findAndOperate (tree s) par (pushChild ?new)) = updateFirst ?push par (tree s)"
      by (simp add: findAndOperate_pointwise [where f = ?push, OF pushChild_pointwise])
    have tr: "tree (saveModal s) = updateFirst ?push par (tree s)"
      using ok m op by (simp add: saveModal_def p t Let_def showToast_def createNode_def)
    have to: "toasts (saveModal s) = toasts s @ [(nextUuid s + 1, ''Child bookmark added'', Info)]"
      using ok m by (simp add: saveModal_def p t Let_def showToast_def createNode_def)
    have fn: "findNode (tree s) par = Some n \<longrightarrow>
             findNode (tree (saveModal s)) par
               = Some (TNode par (title' n) (page' n) (children' n @ [?new]))"
    proof
      assume f: "findNode (tree s) par = Some n"
      then have "id' n = par" using findNode_Some by blast
      moreover have "findNode (updateFirst ?push par (tree s)) par = Some (?push n)"
        using f by (intro findNode_updateFirst) simp_all
      ultimately show "findNode (tree (saveModal s)) par
               = Some (TNode par (title' n) (page' n) (children' n @ [?new]))"
        by (simp add: tr)
    qed
    show "tree (saveModal s) = updateFirst ?push par (tree s)
        \<and> toasts (saveModal s) = toasts s @ [(nextUuid s + 1, ''Child bookmark added'', Info)]
        \<and> (findNode (tree s) par = Some n \<longrightarrow>
             findNode (tree (saveModal s)) par
               = Some (TNode par (title' n) (page' n) (children' n @ [?new])))"
      using tr to fn by simp
  qed
  have edit: "modalMode s = Edit \<and> editingId s = Some e \<longrightarrow>
        tree (saveModal s) = updateFirst ?set e (tree s)
        \<and> toasts (saveModal s) = toasts s @ [(nextUuid s, ''Bookmark updated'', Info)]
        \<and> (findNode (tree s) e = Some n \<longrightarrow>
             findNode (tree (saveModal s)) e = Some (TNode e t p (children' n)))"
  proof
    assume m: "modalMode s = Edit \<and> editingId s = Some e"
    have op: "snd (findAndOperate (tree s) e (setTitlePage t p)) = updateFirst ?set e (tree s)"
      by (simp add: findAndOperate_pointwise [where f = ?set, OF setTitlePage_pointwise])
    have tr: "tree (saveModal s) = updateFirst ?set e (tree s)"
      using ok m op by (simp add: saveModal_def p t Let_def showToast_def)
    have to: "toasts (saveModal s) = toasts s @ [(nextUuid s, ''Bookmark updated'', Info)]"
      using ok m by (simp add: saveModal_def p t Let_def showToast_def)
    have fn: "findNode (tree s) e = Some n \<longrightarrow>
             findNode (tree (saveModal s)) e = Some (TNode e t p (children' n))"
    proof
      assume f: "findNode (tree s) e = Some n"
      then have "id' n = e" using findNode_Some by blast
      moreover have "findNode (updateFirst ?set e (tree s)) e = Some (?set n)"
        using f by (intro findNode_updateFirst) simp_all
      ultimately show "findNode (tree (saveModal s)) e = Some (TNode e t p (children' n))"
        by (simp add: tr)
    qed
    show "tree (saveModal s) = updateFirst ?set e (tree s)
        \<and> toasts (saveModal s) = toasts s @ [(nextUuid s, ''Bookmark updated'', Info)]
        \<and> (findNode (tree s) e = Some n \<longrightarrow>
             findNode (tree (saveModal s)) e = Some (TNode e t p (children' n)))"
      using tr to fn by simp
  qed
  have ok2: "\<not> rejected t (parseIntString (formPage s)) (numPages s)"
    unfolding p by (rule ok)
  show ?thesis
    by (rule conjI [OF p conjI [OF ok2 conjI [OF same conjI [OF root conjI [OF child edit]]]]])
qed


theorem saveModal_commits_leading_integer_witness:
  "parseIntString ''3.9'' = Some 3 \<and> parseIntString '' +3abc'' = Some 3
   \<and> tree (saveModal (sampleApp\<lparr>formPage := ''3.9''\<rparr>)) = tree sampleApp @ [TNode 4 ''Intro'' 3 []]
   \<and> \<not> reportsFailure (sampleApp\<lparr>formPage := ''3.9''\<rparr>) (saveModal (sampleApp\<lparr>formPage := ''3.9''\<rparr>))
   \<and> tree (saveModal (sampleApp\<lparr>modalMode := Edit, editingId := Some 2, formPage := '' +3abc''\<rparr>))
       = [TNode 1 ''A'' 1 [TNode 2 ''Intro'' 3 [], TNode 3 ''C'' 3 []]]
   \<and> findNode (tree (saveModal (sampleApp\<lparr>modalMode := Edit, editingId := Some 2, formPage := '' +3abc''\<rparr>))) 2
       = Some (TNode 2 ''Intro'' 3 [])
   \<and> tree (saveModal (sampleApp\<lparr>modalMode := AddChild, modalParentId := Some 3, formPage := ''3abc''\<rparr>))
       = [TNode 1 ''A'' 1 [TNode 2 ''B'' 2 [], TNode 3 ''C'' 3 [TNode 4 ''Intro'' 3 []]]]
   \<and> findNode (tree (saveModal (sampleApp\<lparr>modalMode := AddChild, modalParentId := Some 3, formPage := ''3abc''\<rparr>))) 3
       = Some (TNode 3 ''C'' 3 [TNode 4 ''Intro'' 3 []])"
proof -
  let ?a = "sampleApp\<lparr>formPage := ''3.9''\<rparr>"
  let ?b = "sampleApp\<lparr>modalMode := Edit, editingId := Some 2, formPage := '' +3abc''\<rparr>"
  let ?c = "sampleApp\<lparr>modalMode := AddChild, modalParentId := Some 3, formPage := ''3abc''\<rparr>"
  have t: "trim ''Intro'' = ''Intro''" by code_simp
  have dg: "isDigit CHR ''3''" "\<not> isDigit CHR ''.''" "\<not> isDigit CHR ''a''"
    by (simp_all add: isDigit_def)
  have sp: "isWhiteSpace CHR '' ''" by (simp add: isWhiteSpace_def)
  have ha: "list_all isWhiteSpace [] \<and> ([] = [] \<or> [] = ''+'') \<and> ''3'' \<noteq> [] \<and> list_all isDigit ''3''
   \<and> (''.9'' = [] \<or> \<not> isDigit (hd ''.9'')) \<and> formPage ?a = [] @ [] @ ''3'' @ ''.9''
   \<and> (3::int) = int (digitsVal 10 ''3'') \<and> 1 \<le> (3::int) \<and> (3::int) < 2 ^ 53
   \<and> ''Intro'' = trim (formTitle ?a) \<and> ''Intro'' \<noteq> []
   \<and> (numPages ?a = None \<or> (\<exists>n. numPages ?a = Some n \<and> 3 \<le> n))"
    by (simp add: dg digitsVal_3 sampleApp_def t)
  have hb: "list_all isWhiteSpace '' '' \<and> (''+'' = [] \<or> ''+'' = ''+'') \<and> ''3'' \<noteq> [] \<and> list_all isDigit ''3''
   \<and> (''abc'' = [] \<or> \<not> isDigit (hd ''abc'')) \<and> formPage ?b = '' '' @ ''+'' @ ''3'' @ ''abc''
   \<and> (3::int) = int (digitsVal 10 ''3'') \<and> 1 \<le> (3::int) \<and> (3::int) < 2 ^ 53
   \<and> ''Intro'' = trim (formTitle ?b) \<and> ''Intro'' \<noteq> []
   \<and> (numPages ?b = None \<or> (\<exists>n. numPages ?b = Some n \<and> 3 \<le> n))"
    by (simp add: dg sp digitsVal_3 sampleApp_def t)
  have hc: "list_all isWhiteSpace [] \<and> ([] = [] \<or> [] = ''+'') \<and> ''3'' \<noteq> [] \<and> list_all isDigit ''3''
   \<and> (''abc'' = [] \<or> \<not> isDigit (hd ''abc'')) \<and> formPage ?c = [] @ [] @ ''3'' @ ''abc''
   \<and> (3::int) = int (digitsVal 10 ''3'') \<and> 1 \<le> (3::int) \<and> (3::int) < 2 ^ 53
   \<and> ''Intro'' = trim (formTitle ?c) \<and> ''Intro'' \<noteq> []
   \<and> (numPages ?c = None \<or> (\<exists>n. numPages ?c = Some n \<and> 3 \<le> n))"
    by (simp add: dg digitsVal_3 sampleApp_def t)
  note ra = saveModal_commits_leading_integer [OF ha, where par = 0 and e = 0 and n = "TNode 0 [] 0 []"]
  note rb = saveModal_commits_leading_integer [OF hb, where par = 0 and e = 2 and n = "TNode 2 ''B'' 2 []"]
  note rc = saveModal_commits_leading_integer [OF hc, where par = 3 and e = 0 and n = "TNode 3 ''C'' 3 []"]
  have ma: "modalMode ?a = AddRoot" by (simp add: sampleApp_def)
  have mb: "modalMode ?b = Edit \<and> editingId ?b = Some 2" by (simp add: sampleApp_def)
  have mc: "modalMode ?c = AddChild \<and> modalParentId ?c = Some 3" by (simp add: sampleApp_def)
  have fb: "findNode (tree ?b) 2 = Some (TNode 2 ''B'' 2 [])" by (simp add: sampleApp_def)
  have fc: "findNode (tree ?c) 3 = Some (TNode 3 ''C'' 3 [])" by (simp add: sampleApp_def)
  have pa: "parseIntString (formPage ?a) = Some 3" using ra by blast
  have pb: "parseIntString (formPage ?b) = Some 3" using rb by blast
  have ea: "tree (saveModal ?a) = tree ?a @ [TNode (nextUuid ?a) ''Intro'' 3 []]"
    and oa: "toasts (saveModal ?a) = toasts ?a @ [(nextUuid ?a + 1, ''Bookmark added'', Info)]"
    using ra ma by blast+
  have eb: "tree (saveModal ?b) = updateFirst (\<lambda>m. TNode (id' m) ''Intro'' 3 (children' m)) 2 (tree ?b)"
    and nb: "findNode (tree (saveModal ?b)) 2 = Some (TNode 2 ''Intro'' 3 (children' (TNode 2 ''B'' 2 [])))"
    using rb mb fb by blast+
  have ec: "tree (saveModal ?c)
      = updateFirst (\<lambda>m. TNode (id' m) (title' m) (page' m) (children' m @ [TNode (nextUuid ?c) ''Intro'' 3 []])) 3 (tree ?c)"
    and nc: "findNode (tree (saveModal ?c)) 3
      = Some (TNode 3 (title' (TNode 3 ''C'' 3 [])) (page' (TNode 3 ''C'' 3 []))
           (children' (TNode 3 ''C'' 3 []) @ [TNode (nextUuid ?c) ''Intro'' 3 []]))"
    using rc mc fc by blast+
  have c1: "parseIntString ''3.9'' = Some 3" using pa by (simp add: sampleApp_def)
  have c2: "parseIntString '' +3abc'' = Some 3" using pb by (simp add: sampleApp_def)
  have c3: "tree (saveModal ?a) = tree sampleApp @ [TNode 4 ''Intro'' 3 []]"
    unfolding ea by (simp add: sampleApp_def)
  have c4: "\<not> reportsFailure ?a (saveModal ?a)"
    using oa by (rule reportsFailure_append_Info)
  have c5: "tree (saveModal ?b) = [TNode 1 ''A'' 1 [TNode 2 ''Intro'' 3 [], TNode 3 ''C'' 3 []]]"
    unfolding eb by (simp add: sampleApp_def)
  have c6: "findNode (tree (saveModal ?b)) 2 = Some (TNode 2 ''Intro'' 3 [])"
    unfolding nb by simp
  have c7: "tree (saveModal ?c) = [TNode 1 ''A'' 1 [TNode 2 ''B'' 2 [], TNode 3 ''C'' 3 [TNode 4 ''Intro'' 3 []]]]"
    unfolding ec by (simp add: sampleApp_def)
  have c8: "findNode (tree (saveModal ?c)) 3 = Some (TNode 3 ''C'' 3 [TNode 4 ''Intro'' 3 []])"
    unfolding nc by (simp add: sampleApp_def)
  show ?thesis
    by (rule conjI [OF c1 conjI [OF c2 conjI [OF c3 conjI [OF c4 conjI [OF c5 conjI [OF c6 conjI [OF c7 c8]]]]]]])
qed

section \<open>Properties of the serializer on the store\<close>

lemma update_last: "(h @ [x])[length h := y] = h @ [y]"
  by simp

lemma store_frame:
  "sortBookmarksByPage_store fuel h nodes = Some (a', h') \<Longrightarrow> prefix h h'"
  "sortChildren_store fuel h0 es = Some (rs, h0') \<Longrightarrow> prefix h0 h0'"
proof (induction fuel h nodes and fuel h0 es arbitrary: a' h' and rs h0'
    rule: sortBookmarksByPage_store_sortChildren_store.induct)
  case (1 h nodes)
  then show ?case by simp
next
  case (2 fuel h nodes)
  from 2(2) obtain es where c: "cellAt h nodes = Some (ArrayCell es)"
    by (auto split: option.splits cell.splits)
  let ?h1 = "h @ [ArrayCell es]"
  let ?sorted = "arraySort (byPage_store ?h1) es"
  let ?h2 = "h @ [ArrayCell ?sorted]"
  from 2(2) c obtain rs h3 where m: "sortChildren_store fuel ?h2 ?sorted = Some (rs, h3)"
    and r: "h' = h3 @ [ArrayCell rs]"
    by (auto simp: Let_def split: option.splits)
  have "prefix ?h2 h3"
    using 2(1) [OF c refl refl refl refl, of "?h2" rs h3] m by simp
  then show ?case
    using r by (auto simp: prefix_def)
next
  case (3 fuel h)
  then show ?case by simp
next
  case (4 fuel h n ns)
  from 4(3) obtain p t ch where c: "cellAt h n = Some (ObjectCell p t ch)"
    by (auto split: option.splits cell.splits)
  from 4(3) c obtain c' h1 where
    k: "(case ch of Some c \<Rightarrow> sortBookmarksByPage_store fuel h c
         | None \<Rightarrow> Some (length h, h @ [ArrayCell []])) = Some (c', h1)"
    by (auto split: option.splits)
  from 4(3) c k obtain rs' where
    m: "sortChildren_store fuel (h1 @ [ObjectCell p t (Some c')]) ns = Some (rs', h0')"
    by (auto split: option.splits)
  have a: "prefix h h1"
  proof (cases ch)
    case None
    with k show ?thesis by auto
  next
    case (Some ca)
    with k 4(1) [OF c refl Some] show ?thesis by simp
  qed
  have b: "prefix (h1 @ [ObjectCell p t (Some c')]) h0'"
    using 4(2) [OF c refl k refl m] .
  show ?case
    using a b by (auto simp: prefix_def)
qed


lemma cellAt_prefix: "prefix h h' \<Longrightarrow> cellAt h a = Some c \<Longrightarrow> cellAt h' a = Some c"
  by (auto simp: cellAt_def prefix_def nth_append split: if_splits)

lemma holds_prefix:
  "holds h a forest \<Longrightarrow> prefix h h' \<Longrightarrow> holds h' a forest"
  "holdsAll h es ns \<Longrightarrow> prefix h h' \<Longrightarrow> holdsAll h' es ns"
proof (induction h a forest and h es ns rule: holds_holdsAll.induct)
  case (1 h a forest)
  from 1(2) obtain es where c: "cellAt h a = Some (ArrayCell es)" and e: "holdsAll h es forest"
    by (auto simp: holds.simps split: option.splits cell.splits)
  from 1(1) [OF c refl e 1(3)] cellAt_prefix [OF 1(3) c] show ?case by (simp add: holds.simps)
next
  case (2 h)
  then show ?case by simp
next
  case (3 h e es p t cs ns)
  from 3(3) obtain ch where c: "cellAt h e = Some (ObjectCell p t ch)"
    and k: "case ch of None \<Rightarrow> cs = [] | Some c \<Rightarrow> holds h c cs"
    and r: "holdsAll h es ns"
    by (auto split: option.splits cell.splits)
  have k': "case ch of None \<Rightarrow> cs = [] | Some c \<Rightarrow> holds h' c cs"
  proof (cases ch)
    case None
    with k show ?thesis by simp
  next
    case (Some ca)
    with k 3(1) [OF c refl Some _ 3(4)] show ?thesis by simp
  qed
  from 3(2) [OF r 3(4)] k' cellAt_prefix [OF 3(4) c] show ?case by simp
next
  case (4 h n ns)
  then show ?case by simp
next
  case (5 h e es)
  then show ?case by simp
qed

lemma holdsAll_list_all2: "holdsAll h es ns = list_all2 (holdsNode h) es ns"
proof (induction es arbitrary: ns)
  case Nil
  then show ?case by (cases ns) simp_all
next
  case (Cons e es)
  show ?case
  proof (cases ns)
    case Nil
    then show ?thesis by simp
  next
    case (Cons n ns')
    then show ?thesis
      using Cons.IH [of ns'] by (cases n) (simp add: holdsNode_def)
  qed
qed

lemma sortInsert_rel:
  assumes "list_all2 R es ns" "R e n"
    and "\<And>a b x y. R a x \<Longrightarrow> R b y \<Longrightarrow> cmp1 a b = cmp2 x y"
  shows "list_all2 R (sortInsert cmp1 e es) (sortInsert cmp2 n ns)"
  using assms(1)
proof (induction rule: list_all2_induct)
  case Nil
  then show ?case using assms(2) by simp
next
  case (Cons a as x xs)
  then show ?case using assms(2) assms(3) [OF assms(2) Cons(1)] by simp
qed

lemma arraySort_rel:
  assumes "list_all2 R es ns"
    and "\<And>a b x y. R a x \<Longrightarrow> R b y \<Longrightarrow> cmp1 a b = cmp2 x y"
  shows "list_all2 R (arraySort cmp1 es) (arraySort cmp2 ns)"
  using assms(1)
proof (induction rule: list_all2_induct)
  case Nil
  then show ?case by simp
next
  case (Cons a as x xs)
  then show ?case using sortInsert_rel [OF Cons(3) Cons(1) assms(2)] by simp
qed

lemma holdsNode_pageAt: "holdsNode h e n \<Longrightarrow> pageAt h e = page n"
  by (cases n) (auto simp: holdsNode_def pageAt_def split: option.splits cell.splits)

lemma byPage_store_byPage: "holdsNode h a x \<Longrightarrow> holdsNode h b y \<Longrightarrow> byPage_store h a b = byPage x y"
  by (simp add: byPage_store_def byPage_def sortKey_def holdsNode_pageAt)

lemma holdsNode_prefix: "holdsNode h e n \<Longrightarrow> prefix h h' \<Longrightarrow> holdsNode h' e n"
  unfolding holdsNode_def by (rule holds_prefix(2))

lemma holdsAll_arraySort:
  assumes "holdsAll h es ns" "prefix h h1"
  shows "holdsAll h (arraySort (byPage_store h1) es) (arraySort byPage ns)"
proof -
  have "byPage_store h1 a b = byPage x y" if "holdsNode h a x" "holdsNode h b y" for a b x y
    using that assms(2) by (simp add: byPage_store_byPage holdsNode_prefix)
  then show ?thesis
    using assms(1) unfolding holdsAll_list_all2 by (rule arraySort_rel [rotated])
qed

lemma forestDepth_member: "n \<in> set forest \<Longrightarrow> forestDepth (children n) < forestDepth forest"
  by (induction forest rule: forestDepth.induct) auto


lemma prefix_snoc: "prefix h (h @ [c])"
  by simp

lemma cellAt_snoc: "cellAt (h @ [c]) (length h) = Some c"
  by (simp add: cellAt_def)

lemma sort_store_correct:
  "holds h a forest \<Longrightarrow> forestDepth forest < fuel \<Longrightarrow>
     \<exists>a' h'. sortBookmarksByPage_store fuel h a = Some (a', h') \<and> holds h' a' (sortBookmarksByPage forest)"
  "holdsAll h0 es ns \<Longrightarrow> (\<And>n. n \<in> set ns \<Longrightarrow> forestDepth (children n) < fuel) \<Longrightarrow>
     \<exists>rs h'. sortChildren_store fuel h0 es = Some (rs, h') \<and> holdsAll h' rs (map sortChildren ns)"
proof (induction fuel h a and fuel h0 es arbitrary: forest and ns
    rule: sortBookmarksByPage_store_sortChildren_store.induct)
  case (1 h nodes)
  then show ?case by simp
next
  case (2 fuel h nodes)
  from 2(2) obtain es where c: "cellAt h nodes = Some (ArrayCell es)" and e: "holdsAll h es forest"
    by (auto simp: holds.simps split: option.splits cell.splits)
  let ?h1 = "h @ [ArrayCell es]"
  let ?sorted = "arraySort (byPage_store ?h1) es"
  let ?h2 = "h @ [ArrayCell ?sorted]"
  have "holdsAll h ?sorted (arraySort byPage forest)"
    using e prefix_snoc by (rule holdsAll_arraySort)
  then have e2: "holdsAll ?h2 ?sorted (arraySort byPage forest)"
    using prefix_snoc by (rule holds_prefix(2))
  have d: "forestDepth (children n) < fuel" if "n \<in> set (arraySort byPage forest)" for n
    using that forestDepth_member [of n forest] 2(3) by (simp add: set_arraySort)
  have "\<exists>rs h'. sortChildren_store fuel ?h2 ?sorted = Some (rs, h')
      \<and> holdsAll h' rs (map sortChildren (arraySort byPage forest))"
    using 2(1) [OF c refl refl refl refl, of "?h2" "arraySort byPage forest"] e2 d by simp
  then obtain rs h3 where m: "sortChildren_store fuel ?h2 ?sorted = Some (rs, h3)"
    and r: "holdsAll h3 rs (sortBookmarksByPage forest)"
    by (auto simp: sortBookmarksByPage.simps)
  have "holds (h3 @ [ArrayCell rs]) (length h3) (sortBookmarksByPage forest)"
    using holds_prefix(2) [OF r prefix_snoc] by (simp add: holds.simps cellAt_snoc)
  then show ?case
    using c m by (simp add: Let_def)
next
  case (3 fuel h)
  then show ?case by (cases ns) simp_all
next
  case (4 fuel h n ns')
  from 4(3) obtain p t cs ms where ns: "ns = Node p t cs # ms"
    by (cases ns; cases "hd ns") auto
  from 4(3) ns obtain ch where c: "cellAt h n = Some (ObjectCell p t ch)"
    and k: "case ch of None \<Rightarrow> cs = [] | Some c \<Rightarrow> holds h c cs"
    and r: "holdsAll h ns' ms"
    by (auto split: option.splits cell.splits)
  have dcs: "forestDepth cs < fuel"
    using 4(4) [of "Node p t cs"] ns by simp
  have "\<exists>c' h1. (case ch of Some c \<Rightarrow> sortBookmarksByPage_store fuel h c
         | None \<Rightarrow> Some (length h, h @ [ArrayCell []])) = Some (c', h1)
       \<and> holds h1 c' (sortBookmarksByPage cs) \<and> prefix h h1"
  proof (cases ch)
    case None
    with k have "cs = []" by simp
    then show ?thesis
      using None by (simp add: holds.simps cellAt_snoc sortBookmarksByPage.simps)
  next
    case (Some ca)
    with k have "holds h ca cs" by simp
    from 4(1) [OF c refl Some this dcs] obtain c' h1 where
      s: "sortBookmarksByPage_store fuel h ca = Some (c', h1)" and "holds h1 c' (sortBookmarksByPage cs)"
      by auto
    then show ?thesis
      using Some store_frame(1) [OF s] by simp
  qed
  then obtain c' h1 where
    kk: "(case ch of Some c \<Rightarrow> sortBookmarksByPage_store fuel h c
         | None \<Rightarrow> Some (length h, h @ [ArrayCell []])) = Some (c', h1)"
    and hc: "holds h1 c' (sortBookmarksByPage cs)" and p1: "prefix h h1"
    by auto
  let ?h2 = "h1 @ [ObjectCell p t (Some c')]"
  have p2: "prefix h ?h2"
    using p1 by (auto simp: prefix_def)
  have r2: "holdsAll ?h2 ns' ms"
    using r p2 by (rule holds_prefix(2))
  have "\<exists>rs h'. sortChildren_store fuel ?h2 ns' = Some (rs, h') \<and> holdsAll h' rs (map sortChildren ms)"
    using 4(2) [OF c refl kk refl r2] 4(4) ns by simp
  then obtain rs h3 where m: "sortChildren_store fuel ?h2 ns' = Some (rs, h3)"
    and rr: "holdsAll h3 rs (map sortChildren ms)"
    by auto
  have p3: "prefix ?h2 h3"
    using store_frame(2) [OF m] .
  have o: "cellAt h3 (length h1) = Some (ObjectCell p t (Some c'))"
    using cellAt_prefix [OF p3 cellAt_snoc] .
  have "prefix h1 h3"
    using p3 by (auto simp: prefix_def)
  then have hc3: "holds h3 c' (sortBookmarksByPage cs)"
    using hc holds_prefix(1) by blast
  have "holdsAll h3 (length h1 # rs) (map sortChildren ns)"
    using o hc3 rr by (simp add: ns)
  then show ?case
    using c kk m by simp
qed


lemma holds_arrayLength: "holds h a forest \<Longrightarrow> arrayLength h a = length forest"
  by (auto simp: holds.simps arrayLength_def holdsAll_list_all2 list_all2_lengthD split: option.splits cell.splits)

lemma outlineLine_children: "outlineLine (Node p t cs) d = outlineLine (Node p t []) d"
  by (simp add: outlineLine_def emitPage_def emitTitle_def)

lemma lines_store_correct:
  "holds h a forest \<Longrightarrow> forestDepth forest < fuel \<Longrightarrow>
     outlineLines_store fuel h a d lines = Some (outlineLines forest d lines)"
  "holdsAll h0 es ns \<Longrightarrow> (\<And>n. n \<in> set ns \<Longrightarrow> forestDepth (children n) < fuel) \<Longrightarrow>
     forEach_store fuel h0 es d0 lines0 = Some (outlineLines ns d0 lines0)"
proof (induction fuel h a d lines and fuel h0 es d0 lines0 arbitrary: forest and ns
    rule: outlineLines_store_forEach_store.induct)
  case (1 h bookmarks depth lines)
  then show ?case by simp
next
  case (2 fuel h bookmarks depth lines)
  from 2(2) obtain es where c: "cellAt h bookmarks = Some (ArrayCell es)" and e: "holdsAll h es forest"
    by (auto simp: holds.simps split: option.splits cell.splits)
  have "forestDepth (children n) < fuel" if "n \<in> set forest" for n
    using that forestDepth_member [of n forest] 2(3) by simp
  with 2(1) [OF c refl e] c show ?case by simp
next
  case (3 fuel h depth lines)
  then show ?case by (cases ns) simp_all
next
  case (4 fuel h b bs depth lines)
  from 4(3) obtain p t cs ms where ns: "ns = Node p t cs # ms"
    by (cases ns; cases "hd ns") auto
  from 4(3) ns obtain ch where c: "cellAt h b = Some (ObjectCell p t ch)"
    and k: "case ch of None \<Rightarrow> cs = [] | Some c \<Rightarrow> holds h c cs"
    and r: "holdsAll h bs ms"
    by (auto split: option.splits cell.splits)
  have dcs: "forestDepth cs < fuel"
    using 4(4) [of "Node p t cs"] ns by simp
  let ?lines1 = "lines @ [outlineLine (Node p t []) depth]"
  let ?lines2 = "if cs \<noteq> [] then outlineLines cs (depth + 1) ?lines1 else ?lines1"
  have kk: "(case ch of
               Some c \<Rightarrow>
                 if arrayLength h c > 0 then outlineLines_store fuel h c (depth + 1) ?lines1
                 else Some ?lines1
             | None \<Rightarrow> Some ?lines1) = Some ?lines2"
  proof (cases ch)
    case None
    with k show ?thesis by simp
  next
    case (Some ca)
    with k have hk: "holds h ca cs" by simp
    show ?thesis
    proof (cases "cs = []")
      case True
      then show ?thesis using Some holds_arrayLength [OF hk] by simp
    next
      case False
      then have pos: "0 < arrayLength h ca" using holds_arrayLength [OF hk] by simp
      from 4(1) [OF c refl refl Some pos hk dcs] show ?thesis
        using Some pos False by simp
    qed
  qed
  have "forEach_store fuel h bs depth ?lines2 = Some (outlineLines ms depth ?lines2)"
    using 4(2) [OF c refl refl kk r] 4(4) ns by simp
  then show ?case
    using c kk by (simp add: ns Let_def outlineLine_children [of p t cs])
qed

lemma forestDepth_Cons: "forestDepth (n # ns) = max (forestDepth [n]) (forestDepth ns)"
  by (cases n) simp

lemma forestDepth_sortInsert: "forestDepth (sortInsert cmp x xs) = max (forestDepth [x]) (forestDepth xs)"
proof (induction xs)
  case Nil
  then show ?case by simp
next
  case (Cons y ys)
  show ?case
    using Cons forestDepth_Cons [of y "sortInsert cmp x ys"] forestDepth_Cons [of x "y # ys"]
      forestDepth_Cons [of y ys]
    by (simp del: forestDepth.simps) (simp add: max.left_commute)
qed

lemma forestDepth_arraySort: "forestDepth (arraySort cmp xs) = forestDepth xs"
proof (induction xs)
  case Nil
  then show ?case by simp
next
  case (Cons x xs)
  then show ?case
    using forestDepth_Cons [of x xs] by (simp add: forestDepth_sortInsert del: forestDepth.simps)
qed

lemma forestDepth_map:
  "(\<And>x. x \<in> set xs \<Longrightarrow> forestDepth [f x] = forestDepth [x]) \<Longrightarrow> forestDepth (map f xs) = forestDepth xs"
proof (induction xs)
  case Nil
  then show ?case by simp
next
  case (Cons x xs)
  then show ?case
    using forestDepth_Cons [of "f x" "map f xs"] forestDepth_Cons [of x xs]
    by (simp del: forestDepth.simps)
qed

lemma forestDepth_sortBookmarksByPage:
  "forestDepth (sortBookmarksByPage nodes) = forestDepth nodes"
  "forestDepth [sortChildren n] = forestDepth [n]"
proof (induction nodes and n rule: sortBookmarksByPage_sortChildren.induct)
  case (1 nodes)
  have "forestDepth (map sortChildren (arraySort byPage nodes)) = forestDepth (arraySort byPage nodes)"
    by (rule forestDepth_map) (rule 1)
  then show ?case
    by (simp add: sortBookmarksByPage.simps forestDepth_arraySort)
next
  case (2 p t cs)
  then show ?case by simp
qed

lemma printedOutline_store_correct:
  assumes "holds h a forest" "forestDepth forest < fuel"
  shows "\<exists>h'. printedOutline_store fuel h a = Some (printedOutline (Some forest), h') \<and> prefix h h'"
proof -
  from sort_store_correct(1) [OF assms] obtain a' h' where
    s: "sortBookmarksByPage_store fuel h a = Some (a', h')" and hs: "holds h' a' (sortBookmarksByPage forest)"
    by auto
  have p: "prefix h h'" using store_frame(1) [OF s] .
  have len: "arrayLength h' a' = length (sortBookmarksByPage forest)"
    using hs by (rule holds_arrayLength)
  have l: "outlineLines_store fuel h' a' 0 [] = Some (outlineLines (sortBookmarksByPage forest) 0 [])"
    using hs assms(2) by (simp add: lines_store_correct(1) forestDepth_sortBookmarksByPage(1))
  have "printedOutline_store fuel h a = Some (printedOutline (Some forest), h')"
  proof (cases "sortBookmarksByPage forest = []")
    case True
    then show ?thesis using s len by (simp add: printedOutline_store_def printedOutline_def)
  next
    case False
    then show ?thesis
      using s len l by (simp add: printedOutline_store_def printedOutline_def buildPrintedOutline_def)
  qed
  with p show ?thesis by blast
qed


lemma prefix_take: "prefix h h' \<Longrightarrow> take (length h) h' = h"
  by (auto simp: prefix_def)

text \<open>
  \<^bold>\<open>C9.\<close> On a store that holds a forest, with fuel above the forest's depth, the
  serializer returns the descriptor of the forest and a store whose cells of before are all
  as they were (the store of before is the first part of the store after: new cells only),
  so the store still holds the forest at the same address, and a second run returns the
  same descriptor. The sort is applied to the copy that \<open>slice\<close> allocates and \<open>map\<close>
  builds new objects; no array or object of the input is written.
\<close>

theorem printedOutline_store_twice_same_and_store_kept:
  "holds h a forest \<and> forestDepth forest < fuel \<Longrightarrow>
     \<exists>h1 h2.
        printedOutline_store fuel h a = Some (printedOutline (Some forest), h1)
        \<and> take (length h) h1 = h
        \<and> holds h1 a forest
        \<and> printedOutline_store fuel h1 a = Some (printedOutline (Some forest), h2)
        \<and> take (length h1) h2 = h1"
proof -
  assume h: "holds h a forest \<and> forestDepth forest < fuel"
  then obtain h1 where
    r1: "printedOutline_store fuel h a = Some (printedOutline (Some forest), h1)" and p1: "prefix h h1"
    using printedOutline_store_correct [of h a forest fuel] by auto
  have k: "holds h1 a forest"
    using h p1 holds_prefix(1) by blast
  obtain h2 where
    r2: "printedOutline_store fuel h1 a = Some (printedOutline (Some forest), h2)" and p2: "prefix h1 h2"
    using printedOutline_store_correct [OF k, of fuel] h by auto
  show ?thesis
    using r1 r2 k prefix_take [OF p1] prefix_take [OF p2] by blast
qed

theorem printedOutline_store_twice_same_and_store_kept_witness:
  "holds sampleStore 4 sampleForest \<and> forestDepth sampleForest < 3
   \<and> (\<exists>h1 h2.
        printedOutline_store 3 sampleStore 4
          = Some (''2||A'' @ [CHR 0x0A] @ ''1|-|C'' @ [CHR 0x0A] @ ''5||B'', h1)
        \<and> take 5 h1 = sampleStore
        \<and> printedOutline_store 3 h1 4
          = Some (''2||A'' @ [CHR 0x0A] @ ''1|-|C'' @ [CHR 0x0A] @ ''5||B'', h2)
        \<and> take (length h1) h2 = h1)"
proof -
  have a: "holds sampleStore 4 sampleForest \<and> forestDepth sampleForest < 3"
    by (simp add: sampleStore_def sampleForest_def holds.simps cellAt_def)
  have b: "printedOutline (Some sampleForest) = ''2||A'' @ [CHR 0x0A] @ ''1|-|C'' @ [CHR 0x0A] @ ''5||B''"
    by code_simp
  have c: "length sampleStore = 5"
    by (simp add: sampleStore_def)
  show ?thesis
    using printedOutline_store_twice_same_and_store_kept [OF a] a unfolding b c by blast
qed

end
